theory Spec2Isabelle
  imports Main "HOL-Library.Word" "HOL-Library.Multiset" "HOL-Library.Code_Target_Numeral"
begin

section \<open>Machine integers and shared data\<close>

text \<open>
  The programs of the repository are C with OpenMP. An \<^verbatim>\<open>unsigned long\<close> value that is
  stored in an array or an accumulator is a 64-bit word. Sizes, loop counters and indices
  are natural numbers, and wherever the C expression can wrap the reduction modulo
  \<open>2 ^ 64\<close> is written out with \<open>ulong\<close>.
\<close>

type_synonym u64 = "64 word"

definition ulong :: "nat \<Rightarrow> nat" where
  "ulong n = n mod 2 ^ 64"

datatype error = Alloc_failed | Div_by_zero | Out_of_bounds

text \<open>
  \<^verbatim>\<open>typedef struct { unsigned long sum; char padding[CACHE_LINE_SIZE - sizeof(unsigned long)]; } PaddedSum;\<close>
  The field \<^verbatim>\<open>sum\<close> is called \<open>sum_f\<close> here.
\<close>

record PaddedSum =
  sum_f :: u64
  padding :: "8 word list"

record PaddedDiff =
  diff_count :: u64
  padding_d :: "8 word list"

section \<open>The partitioning rule\<close>

text \<open>
  Every partitioned worker body starts with
  \<^verbatim>\<open>
  unsigned long chunk_size = size / num_threads;
  unsigned long start = tid * chunk_size;
  unsigned long end = (tid == num_threads - 1) ? size : start + chunk_size;
  for (unsigned long i = start; i < end; i++) ...
  \<close>
  \<open>thread_range\<close> is the list of the values the loop variable takes in thread \<open>tid\<close>;
  the parameter \<^verbatim>\<open>size\<close> is written \<open>sz\<close> throughout.
\<close>

definition chunk_size :: "nat \<Rightarrow> nat \<Rightarrow> nat" where
  "chunk_size sz num_threads = sz div num_threads"

definition chunk_start :: "nat \<Rightarrow> nat \<Rightarrow> nat \<Rightarrow> nat" where
  "chunk_start sz num_threads tid = ulong (tid * chunk_size sz num_threads)"

definition chunk_end :: "nat \<Rightarrow> nat \<Rightarrow> nat \<Rightarrow> nat" where
  "chunk_end sz num_threads tid =
     (if int tid = int num_threads - 1 then sz
      else ulong (chunk_start sz num_threads tid + chunk_size sz num_threads))"

definition thread_range :: "nat \<Rightarrow> nat \<Rightarrow> nat \<Rightarrow> nat list" where
  "thread_range sz num_threads tid =
     [chunk_start sz num_threads tid ..< chunk_end sz num_threads tid]"

section \<open>OpenMP constructs\<close>

text \<open>
  \<^verbatim>\<open>#pragma omp parallel { body }\<close> after \<^verbatim>\<open>omp_set_num_threads(num_threads)\<close> runs the
  body once in each thread of the team and joins them; the team is taken to have the
  \<open>num_threads\<close> threads that were asked for, numbered \<open>0, \<dots>, num_threads - 1\<close>. In
  every region of these programs thread \<open>tid\<close> writes slot \<open>tid\<close> of the accumulator
  array and nothing else that is shared, so the bodies are run here one after the other
  in the order of the thread numbers. A body that may fail to return gives \<open>None\<close>.
\<close>

definition omp_parallel :: "nat \<Rightarrow> (nat \<Rightarrow> 's \<Rightarrow> 's) \<Rightarrow> 's \<Rightarrow> 's" where
  "omp_parallel num_threads body s = fold body [0..<num_threads] s"

fun fold_opt :: "('a \<Rightarrow> 's \<Rightarrow> 's option) \<Rightarrow> 'a list \<Rightarrow> 's \<Rightarrow> 's option" where
  "fold_opt f [] s = Some s"
| "fold_opt f (x # xs) s = (case f x s of None \<Rightarrow> None | Some s' \<Rightarrow> fold_opt f xs s')"

definition omp_parallel_opt :: "nat \<Rightarrow> (nat \<Rightarrow> 's \<Rightarrow> 's option) \<Rightarrow> 's \<Rightarrow> 's option" where
  "omp_parallel_opt num_threads body s = fold_opt body [0..<num_threads] s"

text \<open>
  \<^verbatim>\<open>#pragma omp parallel for schedule(static)\<close> hands every iteration to one thread of the
  team. Which thread gets which iteration is decided by the OpenMP runtime, so the
  assignment is a parameter \<open>sched\<close> (iteration \<open>i\<close> runs in thread \<open>sched i\<close>) wherever
  the loop body asks for its thread number. \<open>static_sched\<close> is the usual assignment:
  contiguous blocks, the first \<open>n mod t\<close> threads getting one iteration more.
\<close>

definition static_sched :: "nat \<Rightarrow> nat \<Rightarrow> nat \<Rightarrow> nat" where
  "static_sched n t i =
     (let q = n div t; r = n mod t
      in if i < r * (q + 1) then i div (q + 1) else r + (i - r * (q + 1)) div q)"

section \<open>Array initialisation and the permutation generator\<close>

text \<open>
  \<^verbatim>\<open>
  void load_array(unsigned long *array, unsigned long size) {
      for (unsigned long i = 0; i < size; i++) { array[i] = i + 1; }
  }
  \<close>
\<close>

definition load_array :: "u64 list \<Rightarrow> nat \<Rightarrow> u64 list" where
  "load_array array sz = fold (\<lambda>i a. a[i := of_nat i + 1]) [0..<sz] array"

text \<open>
  \<^verbatim>\<open>
  void shuffle_array(unsigned long *indices, unsigned long size) {
      srand((unsigned)time(NULL));
      for (unsigned long i = size - 1; i > 0; i--) {
          unsigned long j = rand() % (i + 1);
          unsigned long temp = indices[i];
          indices[i] = indices[j];
          indices[j] = temp;
      }
  }
  \<close>
  \<open>rnd k\<close> is the value of the \<open>k\<close>-th call of \<^verbatim>\<open>rand()\<close> after the seeding. The
  subtraction \<^verbatim>\<open>size - 1\<close> and the addition \<^verbatim>\<open>i + 1\<close> are unsigned and wrap; a zero
  divisor and an index outside the array are errors.
\<close>

definition usub :: "nat \<Rightarrow> nat \<Rightarrow> nat" where
  "usub a b = (2 ^ 64 + a - b) mod 2 ^ 64"

fun shuffle_loop :: "(nat \<Rightarrow> nat) \<Rightarrow> nat \<Rightarrow> nat \<Rightarrow> nat list \<Rightarrow> error + nat list" where
  "shuffle_loop rnd k 0 indices = Inr indices"
| "shuffle_loop rnd k (Suc i') indices =
     (let i = Suc i'; d = ulong (i + 1)
      in if d = 0 then Inl Div_by_zero
         else let j = rnd k mod d
              in if i < length indices \<and> j < length indices
                 then shuffle_loop rnd (Suc k) i' (indices[i := indices ! j, j := indices ! i])
                 else Inl Out_of_bounds)"

definition shuffle_array :: "(nat \<Rightarrow> nat) \<Rightarrow> nat list \<Rightarrow> nat \<Rightarrow> error + nat list" where
  "shuffle_array rnd indices sz = shuffle_loop rnd 0 (usub sz 1) indices"

text \<open>\<^verbatim>\<open>shuffle_indices\<close> of the matrix comparison program has the same body.\<close>

definition shuffle_indices :: "(nat \<Rightarrow> nat) \<Rightarrow> nat list \<Rightarrow> nat \<Rightarrow> error + nat list" where
  "shuffle_indices rnd indices sz = shuffle_loop rnd 0 (usub sz 1) indices"

text \<open>The callers fill the index array with \<^verbatim>\<open>indices[i] = i\<close> before shuffling it.\<close>

definition fill_identity :: "nat list \<Rightarrow> nat \<Rightarrow> nat list" where
  "fill_identity indices sz = fold (\<lambda>i ix. ix[i := i]) [0..<sz] indices"

section \<open>Parallel array sums (array\_sum\_memory\_access and matrix\_init\_access\_variation)\<close>

text \<open>
  The block returned by \<^verbatim>\<open>malloc(num_threads * sizeof(PaddedSum))\<close> is the argument
  \<open>mem\<close>: \<open>None\<close> for a null pointer, otherwise \<open>num_threads\<close> slots of unspecified
  content.
  \<^verbatim>\<open>
  for (int i = 0; i < num_threads; i++) partial_sums[i].sum = 0;
  #pragma omp parallel
  {
      int tid = omp_get_thread_num();
      ... chunk_size, start, end ...
      for (unsigned long i = start; i < end; i++) partial_sums[tid].sum += array[i];
  }
  for (int i = 0; i < num_threads; i++) total_sum += partial_sums[i].sum;
  \<close>
\<close>

definition sum_good :: "PaddedSum list option \<Rightarrow> u64 list \<Rightarrow> nat \<Rightarrow> nat \<Rightarrow> error + u64" where
  "sum_good mem array sz num_threads =
     (case mem of
        None \<Rightarrow> Inl Alloc_failed
      | Some raw \<Rightarrow>
          let partial_sums = fold (\<lambda>i ps. ps[i := (ps ! i)\<lparr>sum_f := 0\<rparr>]) [0..<num_threads] raw;
              partial_sums = omp_parallel num_threads
                (\<lambda>tid. fold (\<lambda>i ps. ps[tid := (ps ! tid)\<lparr>sum_f := sum_f (ps ! tid) + array ! i\<rparr>])
                          (thread_range sz num_threads tid))
                partial_sums
          in Inr (fold (\<lambda>i total_sum. total_sum + sum_f (partial_sums ! i)) [0..<num_threads] 0))"

text \<open>\<^verbatim>\<open>sum_bad_fs\<close> is the same code over \<^verbatim>\<open>unsigned long *partial_sums\<close>.\<close>

definition sum_bad_fs :: "u64 list option \<Rightarrow> u64 list \<Rightarrow> nat \<Rightarrow> nat \<Rightarrow> error + u64" where
  "sum_bad_fs mem array sz num_threads =
     (case mem of
        None \<Rightarrow> Inl Alloc_failed
      | Some raw \<Rightarrow>
          let partial_sums = fold (\<lambda>i ps. ps[i := 0]) [0..<num_threads] raw;
              partial_sums = omp_parallel num_threads
                (\<lambda>tid. fold (\<lambda>i ps. ps[tid := ps ! tid + array ! i])
                          (thread_range sz num_threads tid))
                partial_sums
          in Inr (fold (\<lambda>i total_sum. total_sum + partial_sums ! i) [0..<num_threads] 0))"

text \<open>
  \<^verbatim>\<open>sum_bad_ma\<close> of matrix\_init\_access\_variation reads through the shuffled indices:
  \<^verbatim>\<open>
  for (unsigned long i = start; i < end; i++) {
      unsigned long idx = shuffled_indices[i];
      partial_sums[tid].sum += array[idx];
  }
  \<close>
\<close>

definition sum_bad_ma_29 ::
  "PaddedSum list option \<Rightarrow> u64 list \<Rightarrow> nat \<Rightarrow> nat \<Rightarrow> nat list \<Rightarrow> error + u64" where
  "sum_bad_ma_29 mem array sz num_threads shuffled_indices =
     (case mem of
        None \<Rightarrow> Inl Alloc_failed
      | Some raw \<Rightarrow>
          let partial_sums = fold (\<lambda>i ps. ps[i := (ps ! i)\<lparr>sum_f := 0\<rparr>]) [0..<num_threads] raw;
              partial_sums = omp_parallel num_threads
                (\<lambda>tid. fold (\<lambda>i ps. let idx = shuffled_indices ! i
                                    in ps[tid := (ps ! tid)\<lparr>sum_f := sum_f (ps ! tid) + array ! idx\<rparr>])
                          (thread_range sz num_threads tid))
                partial_sums
          in Inr (fold (\<lambda>i total_sum. total_sum + sum_f (partial_sums ! i)) [0..<num_threads] 0))"

text \<open>
  \<^verbatim>\<open>sum_bad_ma\<close> of array\_sum\_memory\_access is strided. It first runs Euclid's algorithm
  and prints a warning when the result is not 1; the run goes on either way.
  \<^verbatim>\<open>
  unsigned long a = stride; unsigned long b = size;
  while (b != 0) { unsigned long temp = b; b = a % b; a = temp; }
  if (a != 1) fprintf(stderr, "Warning: stride=%lu and size=%lu are not co-prime. ...");
  ...
  for (unsigned long i = tid; i < size; i += num_threads) {
      unsigned long idx = (i * stride) % size;
      partial_sums[tid].sum += array[idx];
  }
  \<close>
  \<open>strided_indices\<close> collects the values of \<^verbatim>\<open>idx\<close> in the order one thread computes
  them; the counter and the product wrap at \<open>2 ^ 64\<close>, and a loop that does not end is
  \<open>None\<close>.
\<close>

fun gcd_loop :: "nat \<Rightarrow> nat \<Rightarrow> nat" where
  "gcd_loop a b = (if b = 0 then a else gcd_loop b (a mod b))"

definition stride_warning :: "nat \<Rightarrow> nat \<Rightarrow> bool" where
  "stride_warning stride sz = (gcd_loop stride sz \<noteq> 1)"

partial_function (option) strided_indices ::
  "nat \<Rightarrow> nat \<Rightarrow> nat \<Rightarrow> nat \<Rightarrow> nat list \<Rightarrow> nat list option" where
  "strided_indices sz num_threads stride i seen =
     (if i < sz
      then strided_indices sz num_threads stride (ulong (i + num_threads))
             (seen @ [ulong (i * stride) mod sz])
      else Some seen)"

declare strided_indices.simps [code]

definition sum_bad_ma_28 ::
  "PaddedSum list option \<Rightarrow> u64 list \<Rightarrow> nat \<Rightarrow> nat \<Rightarrow> nat \<Rightarrow> (error + u64) option" where
  "sum_bad_ma_28 mem array sz num_threads stride =
     (case mem of
        None \<Rightarrow> Some (Inl Alloc_failed)
      | Some raw \<Rightarrow>
          let partial_sums = fold (\<lambda>i ps. ps[i := (ps ! i)\<lparr>sum_f := 0\<rparr>]) [0..<num_threads] raw
          in case omp_parallel_opt num_threads
                (\<lambda>tid ps. case strided_indices sz num_threads stride tid [] of
                     None \<Rightarrow> None
                   | Some idxs \<Rightarrow>
                       Some (fold (\<lambda>idx ps. ps[tid := (ps ! tid)\<lparr>sum_f := sum_f (ps ! tid) + array ! idx\<rparr>])
                               idxs ps))
                partial_sums of
               None \<Rightarrow> None
             | Some partial_sums \<Rightarrow>
                 Some (Inr (fold (\<lambda>i total_sum. total_sum + sum_f (partial_sums ! i))
                              [0..<num_threads] 0)))"

section \<open>Matrix comparison (matrix\_compare\_memory\_modes)\<close>

text \<open>
  \<^verbatim>\<open>
  void initialize_matrices(unsigned long *A, unsigned long *B, unsigned long size) {
      #pragma omp parallel for schedule(static)
      for (unsigned long i = 0; i < size; i++) { A[i] = i % 100; B[i] = A[i]; }
      #pragma omp parallel for schedule(static)
      for (unsigned long i = 0; i < size; i += 1000) { B[i] = A[i] + 1; }
  }
  \<close>
  Both loops are OpenMP worksharing loops: the iterations are fixed on entry (for the
  second one, \<open>i = 1000 * k\<close> for \<open>k\<close> below the trip count) and write distinct cells.
\<close>

definition initialize_matrices :: "u64 list \<Rightarrow> u64 list \<Rightarrow> nat \<Rightarrow> u64 list \<times> u64 list" where
  "initialize_matrices A B sz =
     (let (A, B) = fold (\<lambda>i (A, B). let A = A[i := of_nat (i mod 100)] in (A, B[i := A ! i]))
                     [0..<sz] (A, B);
          B = fold (\<lambda>i B. B[i := A ! i + 1]) (map (\<lambda>k. 1000 * k) [0..<(sz + 999) div 1000]) B
      in (A, B))"

text \<open>
  \<^verbatim>\<open>
  for (unsigned long i = start; i < end; i++) {
      if (A[i] != B[i]) { partial_diffs[tid].diff_count++; }
  }
  \<close>
\<close>

definition compare_good ::
  "PaddedDiff list option \<Rightarrow> u64 list \<Rightarrow> u64 list \<Rightarrow> nat \<Rightarrow> nat \<Rightarrow> error + u64" where
  "compare_good mem A B sz num_threads =
     (case mem of
        None \<Rightarrow> Inl Alloc_failed
      | Some raw \<Rightarrow>
          let partial_diffs = fold (\<lambda>i ps. ps[i := (ps ! i)\<lparr>diff_count := 0\<rparr>]) [0..<num_threads] raw;
              partial_diffs = omp_parallel num_threads
                (\<lambda>tid. fold (\<lambda>i ps. if A ! i \<noteq> B ! i
                                    then ps[tid := (ps ! tid)\<lparr>diff_count := diff_count (ps ! tid) + 1\<rparr>]
                                    else ps)
                          (thread_range sz num_threads tid))
                partial_diffs
          in Inr (fold (\<lambda>i total_diffs. total_diffs + diff_count (partial_diffs ! i))
                    [0..<num_threads] 0))"

definition compare_bad_fs ::
  "u64 list option \<Rightarrow> u64 list \<Rightarrow> u64 list \<Rightarrow> nat \<Rightarrow> nat \<Rightarrow> error + u64" where
  "compare_bad_fs mem A B sz num_threads =
     (case mem of
        None \<Rightarrow> Inl Alloc_failed
      | Some raw \<Rightarrow>
          let partial_diffs = fold (\<lambda>i ps. ps[i := 0]) [0..<num_threads] raw;
              partial_diffs = omp_parallel num_threads
                (\<lambda>tid. fold (\<lambda>i ps. if A ! i \<noteq> B ! i then ps[tid := ps ! tid + 1] else ps)
                          (thread_range sz num_threads tid))
                partial_diffs
          in Inr (fold (\<lambda>i total_diffs. total_diffs + partial_diffs ! i) [0..<num_threads] 0))"

definition compare_bad_ma ::
  "PaddedDiff list option \<Rightarrow> u64 list \<Rightarrow> u64 list \<Rightarrow> nat \<Rightarrow> nat \<Rightarrow> nat list \<Rightarrow> error + u64" where
  "compare_bad_ma mem A B sz num_threads shuffled_indices =
     (case mem of
        None \<Rightarrow> Inl Alloc_failed
      | Some raw \<Rightarrow>
          let partial_diffs = fold (\<lambda>i ps. ps[i := (ps ! i)\<lparr>diff_count := 0\<rparr>]) [0..<num_threads] raw;
              partial_diffs = omp_parallel num_threads
                (\<lambda>tid. fold (\<lambda>i ps. let idx = shuffled_indices ! i
                                    in if A ! idx \<noteq> B ! idx
                                       then ps[tid := (ps ! tid)\<lparr>diff_count := diff_count (ps ! tid) + 1\<rparr>]
                                       else ps)
                          (thread_range sz num_threads tid))
                partial_diffs
          in Inr (fold (\<lambda>i total_diffs. total_diffs + diff_count (partial_diffs ! i))
                    [0..<num_threads] 0))"

section \<open>Matrix initialisation (matrix\_init\_access\_modes)\<close>

text \<open>
  The matrix is a list of rows; a cell of the freshly allocated block that was never
  written is \<open>None\<close>. The loop nests are given by the list of the cells they write, in
  order, as (row, column):
  \<^verbatim>\<open>
  void good_mode(int **a, int N, int threads) {
      #pragma omp parallel for num_threads(threads) schedule(static)
      for (int i = 0; i < N; i++) { for (int j = 0; j < N; j++) { a[i][j] = 17; } }
  }
  void bad_fs_mode(int **a, int N, int threads) {
      #pragma omp parallel for num_threads(threads) schedule(static)
      for (int i = 0; i < N; i++) {
          int tid = omp_get_thread_num();
          for (int j = tid; j < N; j += threads) { a[j][i] = 17 + tid; }
      }
  }
  void bad_ma_mode(int **a, int N, int threads) {
      #pragma omp parallel for num_threads(threads) schedule(static)
      for (int j = 0; j < N; j++) { for (int i = 0; i < N; i++) { a[i][j] = 17; } }
  }
  \<close>
  In \<^verbatim>\<open>bad_fs_mode\<close> the outer loop is the worksharing loop, so \<open>tid\<close> is \<open>sched i\<close>; its
  inner loop is \<open>strided_rows\<close>, which does not return when \<^verbatim>\<open>threads\<close> is 0. The
  counters are C \<^verbatim>\<open>int\<close>s, which must not overflow; they are natural numbers here.
\<close>

type_synonym matrix = "int option list list"

definition write_cell :: "nat \<times> nat \<Rightarrow> int \<Rightarrow> matrix \<Rightarrow> matrix" where
  "write_cell c v a = (case c of (r, k) \<Rightarrow> a[r := (a ! r)[k := Some v]])"

definition good_mode_writes :: "nat \<Rightarrow> (nat \<times> nat) list" where
  "good_mode_writes N = concat (map (\<lambda>i. map (\<lambda>j. (i, j)) [0..<N]) [0..<N])"

definition good_mode :: "matrix \<Rightarrow> nat \<Rightarrow> nat \<Rightarrow> matrix" where
  "good_mode a N threads = fold (\<lambda>c. write_cell c 17) (good_mode_writes N) a"

definition bad_ma_mode_writes :: "nat \<Rightarrow> (nat \<times> nat) list" where
  "bad_ma_mode_writes N = concat (map (\<lambda>j. map (\<lambda>i. (i, j)) [0..<N]) [0..<N])"

definition bad_ma_mode :: "matrix \<Rightarrow> nat \<Rightarrow> nat \<Rightarrow> matrix" where
  "bad_ma_mode a N threads = fold (\<lambda>c. write_cell c 17) (bad_ma_mode_writes N) a"

partial_function (option) strided_rows :: "nat \<Rightarrow> nat \<Rightarrow> nat \<Rightarrow> nat list \<Rightarrow> nat list option" where
  "strided_rows N threads j seen =
     (if j < N then strided_rows N threads (j + threads) (seen @ [j]) else Some seen)"

declare strided_rows.simps [code]

definition bad_fs_mode :: "(nat \<Rightarrow> nat) \<Rightarrow> matrix \<Rightarrow> nat \<Rightarrow> nat \<Rightarrow> matrix option" where
  "bad_fs_mode sched a N threads =
     fold_opt (\<lambda>i a. let tid = sched i
                     in case strided_rows N threads tid [] of
                          None \<Rightarrow> None
                        | Some js \<Rightarrow> Some (fold (\<lambda>j. write_cell (j, i) (17 + int tid)) js a))
       [0..<N] a"

section \<open>Sequential sums (array\_sum\_performance\_variation)\<close>

definition sum_linear :: "u64 list \<Rightarrow> nat \<Rightarrow> u64" where
  "sum_linear array sz = fold (\<lambda>i sum. sum + array ! i) [0..<sz] 0"

definition sum_random :: "u64 list \<Rightarrow> nat list \<Rightarrow> nat \<Rightarrow> u64" where
  "sum_random array indices sz = fold (\<lambda>i sum. sum + array ! (indices ! i)) [0..<sz] 0"

text \<open>
  \<^verbatim>\<open>for (unsigned long i = 0; i < size; i += stride) { sum += array[i]; }\<close>
  The running \<^verbatim>\<open>sum\<close> is the argument \<open>acc\<close>.
\<close>

partial_function (option) sum_strided_loop :: "u64 list \<Rightarrow> nat \<Rightarrow> nat \<Rightarrow> nat \<Rightarrow> u64 \<Rightarrow> u64 option" where
  "sum_strided_loop array sz stride i acc =
     (if i < sz then sum_strided_loop array sz stride (ulong (i + stride)) (acc + array ! i)
      else Some acc)"

declare sum_strided_loop.simps [code]

definition sum_strided :: "u64 list \<Rightarrow> nat \<Rightarrow> nat \<Rightarrow> u64 option" where
  "sum_strided array sz stride = sum_strided_loop array sz stride 0 0"

text \<open>
  \<^verbatim>\<open>
  void modify_and_sum(unsigned long *array, unsigned long size) {
      unsigned long sum = 0;
      for (unsigned long i = 0; i < size; i++) { array[i] += 1; sum += array[i]; }
      printf("Modified Sum: %lu\n", sum);
  }
  \<close>
  The result is the array after the call and the sum that is printed.
\<close>

definition modify_and_sum :: "u64 list \<Rightarrow> nat \<Rightarrow> u64 list \<times> u64" where
  "modify_and_sum array sz =
     fold (\<lambda>i (array, sum). let array = array[i := array ! i + 1] in (array, sum + array ! i))
       [0..<sz] (array, 0)"

section \<open>The programs' entry points\<close>

text \<open>
  What a run of \<^verbatim>\<open>main\<close> is observed by: the exit status, the byte counts passed to
  \<^verbatim>\<open>malloc\<close> in program order, and the results printed. The arguments are
  \<^verbatim>\<open>argc\<close>, the mode string and the numbers \<^verbatim>\<open>atol\<close> and \<^verbatim>\<open>atoi\<close> return; the blocks
  that \<^verbatim>\<open>malloc\<close> returns are arguments too (\<open>None\<close> for a null pointer).
\<close>

record 'r outcome =
  exit_status :: int
  allocations :: "nat list"
  printed :: "'r list"

subsection \<open>array\_sum\_false\_sharing\_sim\<close>

text \<open>
  \<^verbatim>\<open>
  if (strcmp(mode, "good") == 0) {
      #pragma omp parallel for reduction(+:sum)
      for (unsigned long i = 0; i < size; i++) { sum += array[i]; }
  } else if (strcmp(mode, "bad-fs") == 0) {
      unsigned long *partial_sums = (unsigned long*) malloc(num_threads * sizeof(unsigned long));
      for (int i = 0; i < num_threads; i++) { partial_sums[i] = 0; }
      #pragma omp parallel shared(partial_sums)
      { int tid = omp_get_thread_num();
        #pragma omp for
        for (unsigned long i = 0; i < size; i++) { partial_sums[tid] += array[i]; } }
      for (int i = 0; i < num_threads; i++) { sum += partial_sums[i]; }
  } else if (strcmp(mode, "bad-ma") == 0) {
      int stride = 64;
      #pragma omp parallel for reduction(+:sum)
      for (unsigned long i = 0; i < size; i++) { sum += array[i]; }
  }
  \<close>
  \<open>good_index_14 i\<close> and \<open>bad_ma_index_14 i\<close> are the array indices the two reduction
  loops read in iteration \<open>i\<close>. A reduction gives each thread of the team a private copy
  of \<^verbatim>\<open>sum\<close> that starts at 0, and adds the copies to \<^verbatim>\<open>sum\<close> at the end; \<open>sched i\<close> is
  below the size of the team.
\<close>

definition good_index_14 :: "nat \<Rightarrow> nat" where
  "good_index_14 i = i"

definition bad_ma_index_14 :: "nat \<Rightarrow> nat" where
  "bad_ma_index_14 i = (let stride = (64::int) in i)"

definition omp_for_reduction :: "nat \<Rightarrow> (nat \<Rightarrow> nat) \<Rightarrow> u64 list \<Rightarrow> nat \<Rightarrow> (nat \<Rightarrow> nat) \<Rightarrow> u64" where
  "omp_for_reduction team sched array sz index_of =
     (let private = fold (\<lambda>i p. p(sched i := p (sched i) + array ! index_of i)) [0..<sz] (\<lambda>t. 0)
      in fold (\<lambda>t sum. sum + private t) [0..<team] 0)"

text \<open>
  \<^verbatim>\<open>threads\<close> is the \<^verbatim>\<open>int\<close> that \<^verbatim>\<open>atoi\<close> returned, and nothing tests it. In the
  request \<^verbatim>\<open>num_threads * sizeof(unsigned long)\<close> it is converted to \<^verbatim>\<open>size_t\<close>.
\<close>

definition size_t_of_int :: "int \<Rightarrow> nat" where
  "size_t_of_int n = nat (n mod 2 ^ 64)"

text \<open>
  The pointer \<^verbatim>\<open>partial_sums\<close> is not tested either. The block it points to is \<open>slots\<close>,
  with no slot at all behind a null pointer; a write to \<^verbatim>\<open>partial_sums[i]\<close> outside the
  block is the error \<open>Out_of_bounds\<close>. The two counting loops run \<open>nat num_threads\<close>
  times, that is not at all when \<^verbatim>\<open>num_threads\<close> is not positive.
\<close>

definition bad_fs_14 :: "u64 list option \<Rightarrow> (nat \<Rightarrow> nat) \<Rightarrow> u64 list \<Rightarrow> nat \<Rightarrow> int \<Rightarrow> error + u64" where
  "bad_fs_14 mem sched array sz num_threads =
     (let slots = (case mem of None \<Rightarrow> [] | Some raw \<Rightarrow> raw)
      in if list_ex (\<lambda>i. length slots \<le> i) [0..<nat num_threads]
            \<or> list_ex (\<lambda>i. length slots \<le> sched i) [0..<sz]
         then Inl Out_of_bounds
         else let partial_sums = fold (\<lambda>i ps. ps[i := 0]) [0..<nat num_threads] slots;
                  partial_sums = fold (\<lambda>i ps. let tid = sched i in ps[tid := ps ! tid + array ! i])
                                   [0..<sz] partial_sums
              in Inr (fold (\<lambda>i sum. sum + partial_sums ! i) [0..<nat num_threads] 0))"

text \<open>
  \<^verbatim>\<open>main\<close> tests \<^verbatim>\<open>argc\<close> and the mode, and nothing else, before it allocates. After
  \<^verbatim>\<open>omp_set_num_threads(threads)\<close> the team has \<^verbatim>\<open>threads\<close> threads; for an argument that is
  not positive the routine of the GNU runtime stores 1 (\<^verbatim>\<open>n > 0 ? n : 1\<close>), so the team
  has one thread and the program runs on.
\<close>

definition main_14 ::
  "u64 list option \<Rightarrow> u64 list option \<Rightarrow> (nat \<Rightarrow> nat) \<Rightarrow> nat \<Rightarrow> string \<Rightarrow> nat \<Rightarrow> int
     \<Rightarrow> error + u64 outcome" where
  "main_14 array_mem sums_mem sched argc mode sz threads =
     (if argc < 4 then Inr \<lparr>exit_status = 1, allocations = [], printed = []\<rparr>
      else if mode \<noteq> ''good'' \<and> mode \<noteq> ''bad-fs'' \<and> mode \<noteq> ''bad-ma''
      then Inr \<lparr>exit_status = 1, allocations = [], printed = []\<rparr>
      else case array_mem of
             None \<Rightarrow> Inr \<lparr>exit_status = 1, allocations = [ulong (sz * 8)], printed = []\<rparr>
           | Some raw \<Rightarrow>
               let array = load_array raw sz;
                   team = (if threads \<le> 0 then 1 else nat threads)
               in if mode = ''good''
                  then Inr \<lparr>exit_status = 0, allocations = [ulong (sz * 8)],
                            printed = [omp_for_reduction team sched array sz good_index_14]\<rparr>
                  else if mode = ''bad-fs''
                  then (case bad_fs_14 sums_mem sched array sz threads of
                          Inl e \<Rightarrow> Inl e
                        | Inr res \<Rightarrow>
                            Inr \<lparr>exit_status = 0,
                                 allocations = [ulong (sz * 8), ulong (size_t_of_int threads * 8)],
                                 printed = [res]\<rparr>)
                  else Inr \<lparr>exit_status = 0, allocations = [ulong (sz * 8)],
                            printed = [omp_for_reduction team sched array sz bad_ma_index_14]\<rparr>)"

subsection \<open>matrix\_init\_access\_modes\<close>

text \<open>
  \<^verbatim>\<open>main\<close> tests \<^verbatim>\<open>argc\<close> and the mode; \<^verbatim>\<open>N\<close> and \<^verbatim>\<open>threads\<close> are used as
  \<^verbatim>\<open>atoi\<close> returned them. The two requests are \<^verbatim>\<open>sizeof(int*) * N\<close> and
  \<^verbatim>\<open>sizeof(int) * N * N\<close> in \<^verbatim>\<open>size_t\<close>; the row pointers then give a matrix of \<open>N\<close> rows
  of \<open>N\<close> cells. \<^verbatim>\<open>good_mode\<close> and \<^verbatim>\<open>bad_ma_mode\<close> write the same cells whatever
  \<^verbatim>\<open>threads\<close> is. In \<^verbatim>\<open>bad_fs_mode\<close> the inner loop steps by \<^verbatim>\<open>threads\<close>: with 0 it does
  not return once it is entered, and with a negative step the row index \<^verbatim>\<open>j\<close> falls
  below 0 and \<^verbatim>\<open>a[j][i]\<close> is outside the matrix. The inner loop of column \<open>i\<close> is entered
  when \<open>sched i < N\<close>.
\<close>

definition main_23 ::
  "bool \<Rightarrow> bool \<Rightarrow> (nat \<Rightarrow> nat) \<Rightarrow> nat \<Rightarrow> string \<Rightarrow> int \<Rightarrow> int
     \<Rightarrow> (error + (int option) outcome) option" where
  "main_23 rows_ok block_ok sched argc mode N threads =
     (if argc < 4 then Some (Inr \<lparr>exit_status = 1, allocations = [], printed = []\<rparr>)
      else if mode \<noteq> ''good'' \<and> mode \<noteq> ''bad-fs'' \<and> mode \<noteq> ''bad-ma''
      then Some (Inr \<lparr>exit_status = 1, allocations = [], printed = []\<rparr>)
      else let rows_bytes = ulong (8 * size_t_of_int N);
               block_bytes = ulong (ulong (4 * size_t_of_int N) * size_t_of_int N)
      in if \<not> rows_ok
         then Some (Inr \<lparr>exit_status = 1, allocations = [rows_bytes], printed = []\<rparr>)
         else if \<not> block_ok
         then Some (Inr \<lparr>exit_status = 1, allocations = [rows_bytes, block_bytes], printed = []\<rparr>)
         else let a = replicate (nat N) (replicate (nat N) None)
         in if mode = ''bad-fs'' \<and> threads < 0 \<and> list_ex (\<lambda>i. sched i < nat N) [0..<nat N]
            then Some (Inl Out_of_bounds)
            else case (if mode = ''good'' then Some (good_mode a (nat N) (nat threads))
                       else if mode = ''bad-fs'' then bad_fs_mode sched a (nat N) (nat threads)
                       else Some (bad_ma_mode a (nat N) (nat threads))) of
                   None \<Rightarrow> None
                 | Some a \<Rightarrow>
                     Some (Inr \<lparr>exit_status = 0, allocations = [rows_bytes, block_bytes],
                                printed = (if N > 17 then [a ! 17 ! 17] else [])\<rparr>))"

subsection \<open>array\_sum\_performance\_variation\<close>

text \<open>
  \<^verbatim>\<open>main\<close> tests \<^verbatim>\<open>argc\<close> and the size, allocates and loads the array, allocates and
  shuffles the indices when the mode is \<^verbatim>\<open>bad\<close>, and only then finds out that a mode is
  neither \<^verbatim>\<open>good\<close> nor \<^verbatim>\<open>bad\<close>.
\<close>

definition main_10 ::
  "u64 list option \<Rightarrow> nat list option \<Rightarrow> (nat \<Rightarrow> nat) \<Rightarrow> nat \<Rightarrow> string \<Rightarrow> nat
     \<Rightarrow> (error + u64 outcome) option" where
  "main_10 array_mem indices_mem rnd argc mode sz =
     (if argc < 3 then Some (Inr \<lparr>exit_status = 1, allocations = [], printed = []\<rparr>)
      else if sz = 0 then Some (Inr \<lparr>exit_status = 1, allocations = [], printed = []\<rparr>)
      else case array_mem of
             None \<Rightarrow> Some (Inr \<lparr>exit_status = 1, allocations = [ulong (sz * 8)], printed = []\<rparr>)
           | Some raw \<Rightarrow>
               let array = load_array raw sz
               in if mode = ''bad''
                  then (case indices_mem of
                          None \<Rightarrow> Some (Inr \<lparr>exit_status = 1,
                                              allocations = [ulong (sz * 8), ulong (sz * 8)],
                                              printed = []\<rparr>)
                        | Some raw_indices \<Rightarrow>
                            (case shuffle_array rnd (fill_identity raw_indices sz) sz of
                               Inl e \<Rightarrow> Some (Inl e)
                             | Inr indices \<Rightarrow>
                                 (case sum_strided array sz 5 of
                                    None \<Rightarrow> None
                                  | Some strided \<Rightarrow>
                                      Some (Inr \<lparr>exit_status = 0,
                                                 allocations = [ulong (sz * 8), ulong (sz * 8)],
                                                 printed = [sum_random array indices sz, strided]\<rparr>))))
                  else if mode = ''good''
                  then Some (Inr \<lparr>exit_status = 0, allocations = [ulong (sz * 8)],
                                  printed = [sum_linear array sz, snd (modify_and_sum array sz)]\<rparr>)
                  else Some (Inr \<lparr>exit_status = 1, allocations = [ulong (sz * 8)], printed = []\<rparr>))"

subsection \<open>array\_sum\_memory\_access\<close>

text \<open>
  Here \<^verbatim>\<open>main\<close> rejects a wrong \<^verbatim>\<open>argc\<close>, an unknown mode, \<^verbatim>\<open>size == 0\<close> and
  \<^verbatim>\<open>num_threads <= 0\<close> before the first \<^verbatim>\<open>malloc\<close>. The sum functions leave through
  \<^verbatim>\<open>exit(EXIT_FAILURE)\<close> when their own allocation fails. The stride is 7.
\<close>

definition main_28 ::
  "u64 list option \<Rightarrow> PaddedSum list option \<Rightarrow> u64 list option \<Rightarrow> nat \<Rightarrow> string \<Rightarrow> nat \<Rightarrow> int
     \<Rightarrow> (u64 outcome) option" where
  "main_28 array_mem padded_mem packed_mem argc mode sz num_threads =
     (if argc \<noteq> 4 then Some \<lparr>exit_status = 1, allocations = [], printed = []\<rparr>
      else if mode \<noteq> ''good'' \<and> mode \<noteq> ''bad-fs'' \<and> mode \<noteq> ''bad-ma''
      then Some \<lparr>exit_status = 1, allocations = [], printed = []\<rparr>
      else if sz = 0 then Some \<lparr>exit_status = 1, allocations = [], printed = []\<rparr>
      else if num_threads \<le> 0 then Some \<lparr>exit_status = 1, allocations = [], printed = []\<rparr>
      else case array_mem of
             None \<Rightarrow> Some \<lparr>exit_status = 1, allocations = [ulong (sz * 8)], printed = []\<rparr>
           | Some raw \<Rightarrow>
               let array = load_array raw sz;
                   T = nat num_threads;
                   finish = (\<lambda>bytes r. case r of
                               Inl e \<Rightarrow> \<lparr>exit_status = 1, allocations = [ulong (sz * 8), bytes], printed = []\<rparr>
                             | Inr res \<Rightarrow>
                                 \<lparr>exit_status = 0, allocations = [ulong (sz * 8), bytes], printed = [res]\<rparr>)
               in if mode = ''good''
                  then Some (finish (ulong (T * 64)) (sum_good padded_mem array sz T))
                  else if mode = ''bad-fs''
                  then Some (finish (ulong (T * 8)) (sum_bad_fs packed_mem array sz T))
                  else map_option (finish (ulong (T * 64))) (sum_bad_ma_28 padded_mem array sz T 7))"

subsection \<open>matrix\_compare\_memory\_modes\<close>

text \<open>
  \<^verbatim>\<open>
  unsigned long N = atol(argv[2]);
  int num_threads = atoi(argv[3]);
  ... the mode is validated ...
  if (N == 0) { ...; return EXIT_FAILURE; }
  if (num_threads <= 0) { ...; return EXIT_FAILURE; }
  omp_set_num_threads(num_threads);
  unsigned long total_elements = N * N;
  unsigned long *A = (unsigned long *) malloc(total_elements * sizeof(unsigned long));
  unsigned long *B = (unsigned long *) malloc(total_elements * sizeof(unsigned long));
  if (!A || !B) { ...; return EXIT_FAILURE; }
  initialize_matrices(A, B, total_elements);
  unsigned long *shuffled_indices = NULL;
  if (strcmp(mode, "bad-ma") == 0) {
      shuffled_indices = (unsigned long*) malloc(total_elements * sizeof(unsigned long));
      if (!shuffled_indices) { ...; return EXIT_FAILURE; }
      for (unsigned long i = 0; i < total_elements; i++) { shuffled_indices[i] = i; }
      shuffle_indices(shuffled_indices, total_elements);
  }
  \<close>
  and then calls the comparison of the mode, which prints its count. The test is on
  \<^verbatim>\<open>N\<close>; what is allocated, filled and shuffled has \<^verbatim>\<open>N * N\<close> elements, a product in
  \<^verbatim>\<open>unsigned long\<close>. An error of the shuffle ends the run.
\<close>

definition main_31 ::
  "u64 list option \<Rightarrow> u64 list option \<Rightarrow> nat list option \<Rightarrow> PaddedDiff list option
     \<Rightarrow> u64 list option \<Rightarrow> (nat \<Rightarrow> nat) \<Rightarrow> nat \<Rightarrow> string \<Rightarrow> nat \<Rightarrow> int \<Rightarrow> error + u64 outcome" where
  "main_31 A_mem B_mem indices_mem padded_mem packed_mem rnd argc mode N num_threads =
     (if argc \<noteq> 4 then Inr \<lparr>exit_status = 1, allocations = [], printed = []\<rparr>
      else if mode \<noteq> ''good'' \<and> mode \<noteq> ''bad-fs'' \<and> mode \<noteq> ''bad-ma''
      then Inr \<lparr>exit_status = 1, allocations = [], printed = []\<rparr>
      else if N = 0 then Inr \<lparr>exit_status = 1, allocations = [], printed = []\<rparr>
      else if num_threads \<le> 0 then Inr \<lparr>exit_status = 1, allocations = [], printed = []\<rparr>
      else let total_elements = ulong (N * N);
               bytes = ulong (total_elements * 8);
               T = nat num_threads;
               finish = (\<lambda>requests r. case r of
                           Inl e \<Rightarrow> \<lparr>exit_status = 1, allocations = requests, printed = []\<rparr>
                         | Inr res \<Rightarrow> \<lparr>exit_status = 0, allocations = requests, printed = [res]\<rparr>)
      in case A_mem of
           None \<Rightarrow> Inr \<lparr>exit_status = 1, allocations = [bytes, bytes], printed = []\<rparr>
         | Some A_raw \<Rightarrow>
        (case B_mem of
           None \<Rightarrow> Inr \<lparr>exit_status = 1, allocations = [bytes, bytes], printed = []\<rparr>
         | Some B_raw \<Rightarrow>
             (case initialize_matrices A_raw B_raw total_elements of
                (A, B) \<Rightarrow>
                  if mode = ''bad-ma''
                  then (case indices_mem of
                          None \<Rightarrow> Inr \<lparr>exit_status = 1, allocations = [bytes, bytes, bytes],
                                        printed = []\<rparr>
                        | Some raw_indices \<Rightarrow>
                            (case shuffle_indices rnd (fill_identity raw_indices total_elements)
                                    total_elements of
                               Inl e \<Rightarrow> Inl e
                             | Inr shuffled_indices \<Rightarrow>
                                 Inr (finish [bytes, bytes, bytes, ulong (T * 64)]
                                        (compare_bad_ma padded_mem A B total_elements T
                                           shuffled_indices))))
                  else if mode = ''good''
                  then Inr (finish [bytes, bytes, ulong (T * 64)]
                              (compare_good padded_mem A B total_elements T))
                  else Inr (finish [bytes, bytes, ulong (T * 8)]
                              (compare_bad_fs packed_mem A B total_elements T)))))"

section \<open>Partition lemmas\<close>

lemma ulong_id: "n < 2 ^ 64 \<Longrightarrow> ulong n = n"
  by (simp add: ulong_def)

lemma chunk_mult_le:
  assumes "tid < num_threads"
  shows "tid * chunk_size sz num_threads + chunk_size sz num_threads \<le> sz"
proof -
  have "Suc tid * (sz div num_threads) \<le> num_threads * (sz div num_threads)"
    using assms by (intro mult_le_mono1) simp
  also have "\<dots> \<le> sz" by simp
  finally show ?thesis by (simp add: chunk_size_def)
qed

lemma chunk_start_eq:
  assumes "tid < num_threads" "sz < 2 ^ 64"
  shows "chunk_start sz num_threads tid = tid * chunk_size sz num_threads"
proof -
  have "tid * chunk_size sz num_threads < 2 ^ 64"
    using chunk_mult_le [OF assms(1), of sz] assms(2) by linarith
  then show ?thesis by (simp add: chunk_start_def ulong_id)
qed

lemma chunk_end_eq:
  assumes "tid < num_threads" "sz < 2 ^ 64"
  shows "chunk_end sz num_threads tid =
     (if Suc tid = num_threads then sz else Suc tid * chunk_size sz num_threads)"
proof -
  have "tid * chunk_size sz num_threads + chunk_size sz num_threads < 2 ^ 64"
    using chunk_mult_le [OF assms(1), of sz] assms(2) by linarith
  moreover have "(int tid = int num_threads - 1) = (Suc tid = num_threads)"
    by auto
  ultimately show ?thesis
    by (simp add: chunk_end_def chunk_start_eq [OF assms] ulong_id)
qed

lemma thread_range_eq:
  assumes "tid < num_threads" "sz < 2 ^ 64"
  shows "thread_range sz num_threads tid =
     [tid * chunk_size sz num_threads ..<
        (if Suc tid = num_threads then sz else Suc tid * chunk_size sz num_threads)]"
  by (simp add: thread_range_def chunk_start_eq [OF assms] chunk_end_eq [OF assms])

lemma concat_ranges_prefix:
  assumes "k < num_threads" "sz < 2 ^ 64"
  shows "concat (map (thread_range sz num_threads) [0..<k]) =
         [0..<k * chunk_size sz num_threads]"
  using assms(1)
proof (induction k)
  case 0
  then show ?case by simp
next
  case (Suc k)
  then have k: "k < num_threads" and nl: "Suc k \<noteq> num_threads" by simp_all
  have "[0..<k * chunk_size sz num_threads] @
        [k * chunk_size sz num_threads..<Suc k * chunk_size sz num_threads] =
        [0..<Suc k * chunk_size sz num_threads]"
    using upt_add_eq_append [of 0 "k * chunk_size sz num_threads" "chunk_size sz num_threads"]
    by (simp add: add.commute)
  then show ?case
    using Suc.IH [OF k] by (simp add: thread_range_eq [OF k assms(2)] nl)
qed

lemma concat_ranges:
  assumes "0 < num_threads" "sz < 2 ^ 64"
  shows "concat (map (thread_range sz num_threads) [0..<num_threads]) = [0..<sz]"
proof -
  obtain k where T: "num_threads = Suc k"
    using assms(1) by (cases num_threads) auto
  have k: "k < num_threads" by (simp add: T)
  have le: "k * chunk_size sz num_threads \<le> sz"
    using chunk_mult_le [OF k, of sz] by linarith
  have "[0..<k * chunk_size sz num_threads] @ [k * chunk_size sz num_threads..<sz] =
        [0..<sz]"
    using upt_add_eq_append [of 0 "k * chunk_size sz num_threads"
        "sz - k * chunk_size sz num_threads"] le by simp
  then show ?thesis
    using concat_ranges_prefix [OF k assms(2)] thread_range_eq [OF k assms(2)]
    by (simp add: T)
qed

lemma ranges_disjoint:
  assumes "t1 < t2" "t2 < T" "N < 2 ^ 64"
  shows "set (thread_range N T t1) \<inter> set (thread_range N T t2) = {}"
proof -
  have t1: "t1 < T" and ne: "Suc t1 \<noteq> T" using assms by simp_all
  have "Suc t1 * chunk_size N T \<le> t2 * chunk_size N T"
    using assms(1) by (intro mult_le_mono1) simp
  then show ?thesis
    by (auto simp: thread_range_eq [OF t1 assms(3)] thread_range_eq [OF assms(2,3)] ne)
qed

section \<open>Claim C3: the partitioning rule covers the index range exactly once\<close>

text \<open>
  C3. For every \<open>N \<ge> 1\<close> and \<open>T \<ge> 1\<close> (\<open>N\<close> an \<^verbatim>\<open>unsigned long\<close>), the ranges of the
  \<open>T\<close> workers are those of the rule: worker \<open>t\<close> gets \<open>[t * (N div T), (t + 1) * (N div T))\<close>
  and the last worker gets \<open>[(T - 1) * (N div T), N)\<close>; any two of them are disjoint,
  their union is \<open>[0, N)\<close>, and their lengths add up to \<open>N\<close>.
\<close>

theorem partition_covers:
  assumes "1 \<le> N" "N < 2 ^ 64" "1 \<le> T"
  shows "(\<forall>t<T. thread_range N T t =
            [t * (N div T) ..< (if t = T - 1 then N else (t + 1) * (N div T))])
       \<and> (\<forall>t1<T. \<forall>t2<T. t1 \<noteq> t2 \<longrightarrow>
            set (thread_range N T t1) \<inter> set (thread_range N T t2) = {})
       \<and> (\<Union>t<T. set (thread_range N T t)) = {0..<N}
       \<and> (\<Sum>t<T. length (thread_range N T t)) = N"
proof (intro conjI allI impI)
  fix t assume "t < T"
  then show "thread_range N T t =
      [t * (N div T) ..< (if t = T - 1 then N else (t + 1) * (N div T))]"
    using thread_range_eq [of t T N] assms(2) by (auto simp: chunk_size_def)
next
  fix t1 t2 assume lt: "t1 < T" "t2 < T" and "t1 \<noteq> t2"
  then consider "t1 < t2" | "t2 < t1" by linarith
  then show "set (thread_range N T t1) \<inter> set (thread_range N T t2) = {}"
  proof cases
    case 1
    then show ?thesis using ranges_disjoint [OF _ lt(2) assms(2)] by simp
  next
    case 2
    then show ?thesis
      using ranges_disjoint [OF _ lt(1) assms(2), of t2] by (simp add: Int_commute)
  qed
next
  have "set (concat (map (thread_range N T) [0..<T])) = {0..<N}"
    using concat_ranges [of T N] assms by simp
  then show "(\<Union>t<T. set (thread_range N T t)) = {0..<N}"
    by (simp add: atLeast0LessThan)
next
  have "length (concat (map (thread_range N T) [0..<T])) = N"
    using concat_ranges [of T N] assms by simp
  then show "(\<Sum>t<T. length (thread_range N T t)) = N"
    by (simp add: length_concat comp_def interv_sum_list_conv_sum_set_nat atLeast0LessThan)
qed

theorem partition_covers_witness:
  "(1::nat) \<le> 10 \<and> (10::nat) < 2 ^ 64 \<and> (1::nat) \<le> 3
   \<and> thread_range 10 3 0 = [0, 1, 2] \<and> thread_range 10 3 1 = [3, 4, 5]
   \<and> thread_range 10 3 2 = [6, 7, 8, 9]
   \<and> set (thread_range 10 3 0) \<inter> set (thread_range 10 3 2) = {}
   \<and> (\<Sum>t<3. length (thread_range 10 3 t)) = 10"
proof -
  have h: "(1::nat) \<le> 10" "(10::nat) < 2 ^ 64" "(1::nat) \<le> 3" by simp_all
  note p = partition_covers [OF h]
  have r: "thread_range 10 3 t =
      [t * (10 div 3) ..< (if t = 3 - 1 then 10 else (t + 1) * (10 div 3))]"
    if "t < 3" for t using p that by blast
  have u: "[0..<3] = [0, 1, 2::nat]" "[3..<6] = [3, 4, 5::nat]" "[6..<10] = [6, 7, 8, 9::nat]"
    by (simp_all add: upt_rec)
  have r0: "thread_range 10 3 0 = [0, 1, 2]" using r [of 0] u by simp
  have r1: "thread_range 10 3 1 = [3, 4, 5]" using r [of 1] u by simp
  have r2: "thread_range 10 3 2 = [6, 7, 8, 9]" using r [of 2] u by simp
  have d: "set (thread_range 10 3 0) \<inter> set (thread_range 10 3 2) = {}"
    using p by simp
  have s: "(\<Sum>t<3. length (thread_range 10 3 t)) = 10"
    using p by blast
  show ?thesis by (intro conjI h r0 r1 r2 d s)
qed

section \<open>Accumulator slots: the packed layout and the padded layout\<close>

lemma fold_add_sum_list:
  fixes a :: "'a::comm_monoid_add"
  shows "fold (\<lambda>i acc. acc + g i) xs a = a + sum_list (map g xs)"
  by (induction xs arbitrary: a) (simp_all add: add.assoc)

lemma init_slots:
  "k \<le> length raw \<Longrightarrow> fold (\<lambda>i ps. ps[i := c]) [0..<k] raw = replicate k c @ drop k raw"
proof (induction k)
  case 0
  then show ?case by simp
next
  case (Suc k)
  then have "k < length raw" by simp
  then have "(replicate k c @ drop k raw)[k := c] = replicate (Suc k) c @ drop (Suc k) raw"
    by (simp add: list_update_append replicate_append_same upd_conv_take_nth_drop
        flip: Cons_nth_drop_Suc)
  then show ?case using Suc by simp
qed

lemma init_slots_all:
  "length raw = T \<Longrightarrow> fold (\<lambda>i ps. ps[i := c]) [0..<T] raw = replicate T c"
  using init_slots [of T raw c] by simp

lemma slot_loop:
  fixes ps :: "('a::comm_monoid_add) list"
  assumes "tid < length ps"
  shows "fold (\<lambda>i ps. if c i then ps[tid := ps ! tid + f i] else ps) xs ps =
         ps[tid := ps ! tid + sum_list (map (\<lambda>i. if c i then f i else 0) xs)]"
  using assms
proof (induction xs arbitrary: ps)
  case Nil
  then show ?case by simp
next
  case (Cons x xs)
  then show ?case by (simp add: add.assoc)
qed

lemma region_length:
  "length (fold (\<lambda>tid. fold (\<lambda>i ps. if c tid i then ps[tid := g tid i ps] else ps) (rng tid)) ts ps) = length ps"
proof (induction ts arbitrary: ps)
  case Nil
  then show ?case by simp
next
  case (Cons t ts)
  have "length (fold (\<lambda>i ps. if c t i then ps[t := g t i ps] else ps) xs ps) = length ps" for xs
    by (induction xs arbitrary: ps) simp_all
  then show ?case using Cons by simp
qed

lemma region_slots:
  fixes ps :: "('a::comm_monoid_add) list"
  assumes "distinct ts" "\<forall>t\<in>set ts. t < length ps" "u < length ps"
  shows "fold (\<lambda>tid. fold (\<lambda>i ps. if c tid i then ps[tid := ps ! tid + f tid i] else ps) (rng tid)) ts ps ! u =
         (if u \<in> set ts then ps ! u + sum_list (map (\<lambda>i. if c u i then f u i else 0) (rng u)) else ps ! u)"
  using assms
proof (induction ts arbitrary: ps)
  case Nil
  then show ?case by simp
next
  case (Cons t ts)
  then have t: "t < length ps" by simp
  let ?ps = "ps[t := ps ! t + sum_list (map (\<lambda>i. if c t i then f t i else 0) (rng t))]"
  have "fold (\<lambda>tid. fold (\<lambda>i ps. if c tid i then ps[tid := ps ! tid + f tid i] else ps) (rng tid)) (t # ts) ps ! u
      = fold (\<lambda>tid. fold (\<lambda>i ps. if c tid i then ps[tid := ps ! tid + f tid i] else ps) (rng tid)) ts ?ps ! u"
    by (simp add: slot_loop [OF t])
  also have "\<dots> = (if u \<in> set ts then ?ps ! u + sum_list (map (\<lambda>i. if c u i then f u i else 0) (rng u)) else ?ps ! u)"
    using Cons.prems by (intro Cons.IH) simp_all
  finally show ?case using Cons.prems by (auto simp: nth_list_update)
qed

lemma region_total:
  fixes f :: "nat \<Rightarrow> 'b \<Rightarrow> 'a::comm_monoid_add"
  shows "fold (\<lambda>i total. total + fold (\<lambda>tid. fold (\<lambda>i ps. if c tid i then ps[tid := ps ! tid + f tid i] else ps) (rng tid)) [0..<T] (replicate T 0) ! i) [0..<T] 0
     = sum_list (map (\<lambda>t. sum_list (map (\<lambda>i. if c t i then f t i else 0) (rng t))) [0..<T])"
proof -
  let ?Q = "fold (\<lambda>tid. fold (\<lambda>i ps. if c tid i then ps[tid := ps ! tid + f tid i] else ps) (rng tid)) [0..<T] (replicate T 0)"
  have m: "map (\<lambda>i. ?Q ! i) [0..<T]
      = map (\<lambda>t. sum_list (map (\<lambda>i. if c t i then f t i else 0) (rng t))) [0..<T]"
    by (rule map_cong [OF refl]) (simp add: region_slots)
  have "fold (\<lambda>i total. total + ?Q ! i) [0..<T] 0 = 0 + sum_list (map (\<lambda>i. ?Q ! i) [0..<T])"
    by (rule fold_add_sum_list)
  also have "\<dots> = sum_list (map (\<lambda>t. sum_list (map (\<lambda>i. if c t i then f t i else 0) (rng t))) [0..<T])"
    by (simp only: m add_0_left)
  finally show ?thesis .
qed


lemma sim_init:
  assumes gp: "\<And>p v. get (put p v) = (v::'a::comm_monoid_add)"
  shows "map get (fold (\<lambda>i ps. ps[i := put (ps ! i) 0]) xs ps) =
         fold (\<lambda>i ps. ps[i := 0]) xs (map get ps)"
  by (induction xs arbitrary: ps) (simp_all add: map_update gp)

lemma sim_step:
  assumes gp: "\<And>p v. get (put p v) = (v::'a::comm_monoid_add)"
  shows "map get (ps[tid := put (ps ! tid) (get (ps ! tid) + v)]) =
         (map get ps)[tid := map get ps ! tid + v]"
proof (cases "tid < length ps")
  case True
  then show ?thesis by (simp add: map_update gp)
next
  case False
  then show ?thesis by (simp add: list_update_beyond not_less)
qed

lemma sim_loop:
  assumes gp: "\<And>p v. get (put p v) = (v::'a::comm_monoid_add)"
  shows "map get (fold (\<lambda>i ps. if c i then ps[tid := put (ps ! tid) (get (ps ! tid) + f i)] else ps) xs ps) =
         fold (\<lambda>i ps. if c i then ps[tid := ps ! tid + f i] else ps) xs (map get ps)"
proof (induction xs arbitrary: ps)
  case Nil
  then show ?case by simp
next
  case (Cons x xs)
  show ?case
  proof (cases "c x")
    case True
    then show ?thesis
      using Cons [of "ps[tid := put (ps ! tid) (get (ps ! tid) + f x)]"]
      by (simp add: sim_step [of get put, OF gp])
  next
    case False
    then show ?thesis using Cons [of ps] by simp
  qed
qed

lemma sim_region:
  assumes gp: "\<And>p v. get (put p v) = (v::'a::comm_monoid_add)"
  shows "map get (fold (\<lambda>tid. fold (\<lambda>i ps. if c tid i then ps[tid := put (ps ! tid) (get (ps ! tid) + f tid i)] else ps) (rng tid)) ts ps) =
         fold (\<lambda>tid. fold (\<lambda>i ps. if c tid i then ps[tid := ps ! tid + f tid i] else ps) (rng tid)) ts (map get ps)"
proof (induction ts arbitrary: ps)
  case Nil
  then show ?case by simp
next
  case (Cons t ts)
  show ?case
    using Cons [of "fold (\<lambda>i ps. if c t i then ps[t := put (ps ! t) (get (ps ! t) + f t i)] else ps) (rng t) ps"]
    by (simp add: sim_loop [of get put, OF gp])
qed

lemma padded_total:
  assumes gp: "\<And>p v. get (put p v) = (v::'a::comm_monoid_add)" and len: "length raw = T"
  shows "fold (\<lambda>i total. total + get (fold (\<lambda>tid. fold (\<lambda>i ps. if c tid i then ps[tid := put (ps ! tid) (get (ps ! tid) + f tid i)] else ps) (rng tid)) [0..<T]
            (fold (\<lambda>i ps. ps[i := put (ps ! i) 0]) [0..<T] raw) ! i)) [0..<T] 0
     = sum_list (map (\<lambda>t. sum_list (map (\<lambda>i. if c t i then f t i else 0) (rng t))) [0..<T])"
proof -
  let ?P = "fold (\<lambda>tid. fold (\<lambda>i ps. if c tid i then ps[tid := put (ps ! tid) (get (ps ! tid) + f tid i)] else ps) (rng tid)) [0..<T]
            (fold (\<lambda>i ps. ps[i := put (ps ! i) 0]) [0..<T] raw)"
  let ?Q = "fold (\<lambda>tid. fold (\<lambda>i ps. if c tid i then ps[tid := ps ! tid + f tid i] else ps) (rng tid)) [0..<T] (replicate T 0)"
  have mp: "map get ?P = ?Q"
    by (simp only: sim_region [of get put, OF gp] sim_init [of get put, OF gp])
       (simp add: init_slots_all len)
  have lenP: "length ?P = T"
    using arg_cong [OF mp, of length] by (simp add: region_length)
  have "fold (\<lambda>i total. total + get (?P ! i)) [0..<T] 0 = 0 + sum_list (map (\<lambda>i. get (?P ! i)) [0..<T])"
    by (rule fold_add_sum_list)
  also have "map (\<lambda>i. get (?P ! i)) [0..<T] = map (\<lambda>i. ?Q ! i) [0..<T]"
    by (rule map_cong [OF refl]) (simp add: lenP flip: mp)
  also have "0 + sum_list (map (\<lambda>i. ?Q ! i) [0..<T]) = fold (\<lambda>i total. total + ?Q ! i) [0..<T] 0"
    by (rule fold_add_sum_list [symmetric])
  also have "\<dots> = sum_list (map (\<lambda>t. sum_list (map (\<lambda>i. if c t i then f t i else 0) (rng t))) [0..<T])"
    by (rule region_total)
  finally show ?thesis .
qed

lemma packed_total:
  fixes f :: "nat \<Rightarrow> 'b \<Rightarrow> 'a::comm_monoid_add"
  assumes len: "length raw = T"
  shows "fold (\<lambda>i total. total + fold (\<lambda>tid. fold (\<lambda>i ps. if c tid i then ps[tid := ps ! tid + f tid i] else ps) (rng tid)) [0..<T]
            (fold (\<lambda>i ps. ps[i := 0]) [0..<T] raw) ! i) [0..<T] 0
     = sum_list (map (\<lambda>t. sum_list (map (\<lambda>i. if c t i then f t i else 0) (rng t))) [0..<T])"
  by (simp only: init_slots_all [OF len] region_total)

lemma sum_list_nested:
  fixes g :: "nat \<Rightarrow> 'a::comm_monoid_add"
  shows "sum_list (map (\<lambda>t. sum_list (map g (rng t))) ts) = sum_list (map g (concat (map rng ts)))"
  by (induction ts) simp_all

lemma sum_good_eq:
  assumes "length raw = T"
  shows "sum_good (Some raw) array sz T =
         Inr (sum_list (map (\<lambda>i. array ! i) (concat (map (thread_range sz T) [0..<T]))))"
  using padded_total [where get = sum_f and put = "\<lambda>p v. p\<lparr>sum_f := v\<rparr>" and c = "\<lambda>_ _. True"
      and f = "\<lambda>_ i. array ! i" and rng = "thread_range sz T", OF _ assms]
  by (simp add: sum_good_def omp_parallel_def sum_list_nested)

lemma sum_bad_fs_eq:
  assumes "length raw = T"
  shows "sum_bad_fs (Some raw) array sz T =
         Inr (sum_list (map (\<lambda>i. array ! i) (concat (map (thread_range sz T) [0..<T]))))"
  using packed_total [where c = "\<lambda>_ _. True" and f = "\<lambda>_ i. array ! i"
      and rng = "thread_range sz T", OF assms]
  by (simp add: sum_bad_fs_def omp_parallel_def sum_list_nested)

lemma sum_bad_ma_29_eq:
  assumes "length raw = T"
  shows "sum_bad_ma_29 (Some raw) array sz T p =
         Inr (sum_list (map (\<lambda>i. array ! (p ! i)) (concat (map (thread_range sz T) [0..<T]))))"
  using padded_total [where get = sum_f and put = "\<lambda>p v. p\<lparr>sum_f := v\<rparr>" and c = "\<lambda>_ _. True"
      and f = "\<lambda>_ i. array ! (p ! i)" and rng = "thread_range sz T", OF _ assms]
  by (simp add: sum_bad_ma_29_def omp_parallel_def sum_list_nested Let_def)

lemma compare_good_eq:
  assumes "length raw = T"
  shows "compare_good (Some raw) A B sz T =
         Inr (sum_list (map (\<lambda>i. if A ! i \<noteq> B ! i then 1 else 0) (concat (map (thread_range sz T) [0..<T]))))"
  using padded_total [where get = diff_count and put = "\<lambda>p v. p\<lparr>diff_count := v\<rparr>"
      and c = "\<lambda>_ i. A ! i \<noteq> B ! i" and f = "\<lambda>_ _. 1" and rng = "thread_range sz T", OF _ assms]
  by (simp add: compare_good_def omp_parallel_def sum_list_nested)

lemma compare_bad_fs_eq:
  assumes "length raw = T"
  shows "compare_bad_fs (Some raw) A B sz T =
         Inr (sum_list (map (\<lambda>i. if A ! i \<noteq> B ! i then 1 else 0) (concat (map (thread_range sz T) [0..<T]))))"
  using packed_total [where c = "\<lambda>_ i. A ! i \<noteq> B ! i" and f = "\<lambda>_ _. 1"
      and rng = "thread_range sz T", OF assms]
  by (simp add: compare_bad_fs_def omp_parallel_def sum_list_nested)

lemma compare_bad_ma_eq:
  assumes "length raw = T"
  shows "compare_bad_ma (Some raw) A B sz T p =
         Inr (sum_list (map (\<lambda>i. if A ! (p ! i) \<noteq> B ! (p ! i) then 1 else 0) (concat (map (thread_range sz T) [0..<T]))))"
  using padded_total [where get = diff_count and put = "\<lambda>p v. p\<lparr>diff_count := v\<rparr>"
      and c = "\<lambda>_ i. A ! (p ! i) \<noteq> B ! (p ! i)" and f = "\<lambda>_ _. 1" and rng = "thread_range sz T", OF _ assms]
  by (simp add: compare_bad_ma_def omp_parallel_def sum_list_nested Let_def)

section \<open>Loaded arrays and sums over permutations\<close>

lemma fold_update_upt:
  "k \<le> length a \<Longrightarrow> fold (\<lambda>i a. a[i := g i]) [0..<k] a = map g [0..<k] @ drop k a"
proof (induction k)
  case 0
  then show ?case by simp
next
  case (Suc k)
  then have "k < length a" by simp
  then have "(map g [0..<k] @ drop k a)[k := g k] = map g [0..<Suc k] @ drop (Suc k) a"
    by (simp add: list_update_append upd_conv_take_nth_drop flip: Cons_nth_drop_Suc)
  then show ?case using Suc by simp
qed

lemma load_array_eq:
  "length array = sz \<Longrightarrow> load_array array sz = map (\<lambda>i. of_nat i + 1) [0..<sz]"
  using fold_update_upt [of sz array "\<lambda>i. of_nat i + 1"] by (simp add: load_array_def)

lemma fill_identity_eq:
  "length indices = sz \<Longrightarrow> fill_identity indices sz = [0..<sz]"
  using fold_update_upt [of sz indices "\<lambda>i. i"] by (simp add: fill_identity_def map_idI)

lemma sum_list_Suc_upt: "2 * sum_list (map Suc [0..<N]) = N * (N + 1)"
  by (induction N) simp_all

lemma gauss_word:
  "sum_list (map (\<lambda>i. of_nat i + 1) [0..<N]) = (of_nat (N * (N + 1) div 2) :: u64)"
proof -
  have "sum_list (map (\<lambda>i. of_nat i + 1) [0..<N]) = (of_nat (sum_list (map Suc [0..<N])) :: u64)"
    by (induction N) simp_all
  moreover have "sum_list (map Suc [0..<N]) = N * (N + 1) div 2"
    using sum_list_Suc_upt [of N] by linarith
  ultimately show ?thesis by simp
qed

lemma sum_list_loaded:
  assumes "length array = N"
  shows "sum_list (load_array array N) = of_nat (N * (N + 1) div 2)"
  by (simp add: load_array_eq [OF assms] gauss_word)

lemma map_nth_upt: "length xs = N \<Longrightarrow> map (\<lambda>i. xs ! i) [0..<N] = xs"
  using map_nth [of xs] by simp

lemma sum_list_perm:
  fixes g :: "nat \<Rightarrow> 'a::comm_monoid_add"
  assumes "mset p = mset [0..<N]"
  shows "sum_list (map (\<lambda>i. g (p ! i)) [0..<N]) = sum_list (map g [0..<N])"
proof -
  have len: "length p = N" using arg_cong [OF assms, of size] by simp
  have "map (\<lambda>i. g (p ! i)) [0..<N] = map g p"
    using map_nth_upt [OF len] by (metis (no_types, lifting) map_map comp_def map_eq_conv)
  moreover have "mset (map g p) = mset (map g [0..<N])"
    using assms by simp
  ultimately show ?thesis by (metis sum_mset_sum_list)
qed

section \<open>The strided traversal\<close>

lemma filter_upt_skip:
  assumes "a \<le> b" "\<And>j. a \<le> j \<Longrightarrow> j < b \<Longrightarrow> \<not> P j"
  shows "filter P [a..<n] = filter P [b..<n]"
proof (cases "b \<le> n")
  case True
  then have "[a..<n] = [a..<b] @ [b..<n]"
    using assms(1) by (metis le_Suc_ex upt_add_eq_append)
  moreover have "filter P [a..<b] = []"
    using assms(2) by (simp add: filter_empty_conv)
  ultimately show ?thesis by simp
next
  case False
  then have "filter P [a..<n] = []"
    using assms(2) by (simp add: filter_empty_conv)
  then show ?thesis using False by simp
qed

lemma residue_gap:
  assumes "i < j" "j < i + T"
  shows "j mod T \<noteq> i mod (T::nat)"
proof
  assume "j mod T = i mod T"
  then have "T dvd j - i"
    using assms(1) by (simp add: mod_eq_dvd_iff_nat)
  moreover have "0 < j - i" "j - i < T" using assms by simp_all
  ultimately show False using nat_dvd_not_less by blast
qed

lemma strided_indices_eq:
  assumes "0 < T" "sz + T \<le> 2 ^ 64"
  shows "strided_indices sz T stride i seen =
         Some (seen @ map (\<lambda>j. ulong (j * stride) mod sz)
                         (filter (\<lambda>j. j mod T = i mod T) [i..<sz]))"
proof (induction "sz - i" arbitrary: i seen rule: less_induct)
  case less
  show ?case
  proof (cases "i < sz")
    case False
    then show ?thesis by (subst strided_indices.simps) simp
  next
    case True
    then have nowrap: "ulong (i + T) = i + T"
      using assms(2) by (simp add: ulong_def)
    have "sz - (i + T) < sz - i" using True assms(1) by simp
    then have IH: "strided_indices sz T stride (i + T) (seen @ [ulong (i * stride) mod sz]) =
         Some ((seen @ [ulong (i * stride) mod sz]) @ map (\<lambda>j. ulong (j * stride) mod sz)
                         (filter (\<lambda>j. j mod T = (i + T) mod T) [i + T..<sz]))"
      by (rule less)
    have "filter (\<lambda>j. j mod T = i mod T) [Suc i..<sz] = filter (\<lambda>j. j mod T = i mod T) [i + T..<sz]"
      using assms(1) by (intro filter_upt_skip) (simp_all add: residue_gap)
    then have "filter (\<lambda>j. j mod T = i mod T) [i..<sz] =
               i # filter (\<lambda>j. j mod T = i mod T) [i + T..<sz]"
      using True by (simp add: upt_conv_Cons)
    then show ?thesis
      using True IH by (subst strided_indices.simps) (simp add: nowrap)
  qed
qed

lemma strided_indices_thread:
  assumes "tid < T" "sz + T \<le> 2 ^ 64"
  shows "strided_indices sz T stride tid [] =
         Some (map (\<lambda>j. ulong (j * stride) mod sz) (filter (\<lambda>j. j mod T = tid) [0..<sz]))"
proof -
  have "filter (\<lambda>j. j mod T = tid) [0..<sz] = filter (\<lambda>j. j mod T = tid) [tid..<sz]"
    using assms(1) by (intro filter_upt_skip) auto
  then show ?thesis
    using assms strided_indices_eq [of T sz stride tid "[]"] by simp
qed

lemma mset_residue_classes:
  "mset (concat (map (\<lambda>t. filter (\<lambda>j. h j = t) xs) [0..<T])) = mset (filter (\<lambda>j. h j < T) xs)"
proof (induction T)
  case 0
  then show ?case by simp
next
  case (Suc T)
  have "filter_mset (\<lambda>j. h j < T) (mset xs) + filter_mset (\<lambda>j. h j = T) (mset xs) =
        filter_mset (\<lambda>j. h j < Suc T) (mset xs)"
    by (rule multiset_eqI) (auto simp: less_Suc_eq)
  then show ?case using Suc by simp
qed

lemma mset_residues_upt:
  assumes "0 < T"
  shows "mset (concat (map (\<lambda>t. filter (\<lambda>j. j mod T = t) [0..<sz]) [0..<T])) = mset [0..<sz]"
  using assms by (simp only: mset_residue_classes) simp

lemma fold_opt_Some:
  assumes "\<And>x s. x \<in> set xs \<Longrightarrow> f x s = Some (g x s)"
  shows "fold_opt f xs s = Some (fold g xs s)"
  using assms by (induction xs arbitrary: s) simp_all

lemma sum_list_mset_cong:
  fixes g :: "'b \<Rightarrow> 'a::comm_monoid_add"
  assumes "mset xs = mset ys"
  shows "sum_list (map g xs) = sum_list (map g ys)"
proof -
  have "mset (map g xs) = mset (map g ys)" using assms by simp
  then show ?thesis by (metis sum_mset_sum_list)
qed

lemma sum_bad_ma_28_eq:
  assumes len: "length raw = T" and T: "0 < T" and nowrap: "sz + T \<le> 2 ^ 64"
  shows "sum_bad_ma_28 (Some raw) array sz T stride =
         Some (Inr (sum_list (map (\<lambda>j. array ! (ulong (j * stride) mod sz)) [0..<sz])))"
proof -
  let ?rng = "\<lambda>t. map (\<lambda>j. ulong (j * stride) mod sz) (filter (\<lambda>j. j mod T = t) [0..<sz])"
  let ?body = "\<lambda>tid. fold (\<lambda>idx ps. ps[tid := (ps ! tid)\<lparr>sum_f := sum_f (ps ! tid) + array ! idx\<rparr>]) (?rng tid)"
  have region: "omp_parallel_opt T
      (\<lambda>tid ps. case strided_indices sz T stride tid [] of
           None \<Rightarrow> None
         | Some idxs \<Rightarrow>
             Some (fold (\<lambda>idx ps. ps[tid := (ps ! tid)\<lparr>sum_f := sum_f (ps ! tid) + array ! idx\<rparr>]) idxs ps))
      ps = Some (fold ?body [0..<T] ps)" for ps
    unfolding omp_parallel_opt_def
    by (rule fold_opt_Some) (simp add: strided_indices_thread [OF _ nowrap])
  have "sum_list (map (\<lambda>t. sum_list (map (\<lambda>idx. array ! idx) (?rng t))) [0..<T]) =
        sum_list (map (\<lambda>j. array ! (ulong (j * stride) mod sz))
                   (concat (map (\<lambda>t. filter (\<lambda>j. j mod T = t) [0..<sz]) [0..<T])))"
    by (simp add: sum_list_nested [symmetric] comp_def)
  also have "\<dots> = sum_list (map (\<lambda>j. array ! (ulong (j * stride) mod sz)) [0..<sz])"
    by (rule sum_list_mset_cong) (rule mset_residues_upt [OF T])
  finally show ?thesis
    using padded_total [where get = sum_f and put = "\<lambda>p v. p\<lparr>sum_f := v\<rparr>" and c = "\<lambda>_ _. True"
      and f = "\<lambda>_ idx. array ! idx" and rng = ?rng, OF _ len]
    by (simp add: sum_bad_ma_28_def region)
qed

section \<open>Coprime strides\<close>

lemma gcd_loop_eq: "gcd_loop a b = gcd a b"
proof (induction a b rule: gcd_loop.induct)
  case (1 a b)
  show ?case
  proof (cases "b = 0")
    case True
    then show ?thesis by simp
  next
    case False
    have "gcd_loop a b = gcd_loop b (a mod b)" using False by simp
    also have "\<dots> = gcd b (a mod b)" using 1 False by blast
    also have "\<dots> = gcd a b" by (simp only: gcd_red_nat [of a b])
    finally show ?thesis .
  qed
qed

declare gcd_loop.simps [simp del]

lemma stride_warning_iff: "stride_warning stride sz \<longleftrightarrow> \<not> coprime stride sz"
  by (simp add: stride_warning_def gcd_loop_eq coprime_iff_gcd_eq_1)

lemma stride_inj:
  assumes "coprime stride N" "i \<le> j" "j < N" "i * stride mod N = j * stride mod N"
  shows "i = (j::nat)"
proof -
  have le: "i * stride \<le> j * stride" using assms(2) by (rule mult_le_mono1)
  have "N dvd j * stride - i * stride"
    using mod_eq_dvd_iff_nat [OF le, of N] assms(4) by simp
  then have "N dvd (j - i) * stride" by (simp add: diff_mult_distrib)
  then have "N dvd j - i"
    using assms(1) by (simp add: coprime_dvd_mult_left_iff coprime_commute)
  moreover have "j - i < N" using assms(3) by simp
  ultimately have "j - i = 0" using nat_dvd_not_less by blast
  then show ?thesis using assms(2) by simp
qed

lemma stride_perm:
  assumes "coprime stride N" "0 < N"
  shows "mset (map (\<lambda>j. j * stride mod N) [0..<N]) = mset [0..<N]"
proof -
  let ?f = "\<lambda>j. j * stride mod N"
  have inj: "inj_on ?f {0..<N}"
  proof (rule inj_onI)
    fix i j assume "i \<in> {0..<N}" "j \<in> {0..<N}" "?f i = ?f j"
    then show "i = j"
      using stride_inj [OF assms(1), of i j] stride_inj [OF assms(1), of j i]
      by (cases "i \<le> j") auto
  qed
  have "?f ` {0..<N} \<subseteq> {0..<N}" using assms(2) by auto
  moreover have "card (?f ` {0..<N}) = card {0..<N}" by (rule card_image [OF inj])
  ultimately have img: "?f ` {0..<N} = {0..<N}"
    by (intro card_subset_eq) simp_all
  have "mset (map ?f [0..<N]) = image_mset ?f (mset_set {0..<N})" by simp
  also have "\<dots> = mset_set (?f ` {0..<N})" by (rule image_mset_mset_set [OF inj])
  finally show ?thesis by (simp add: img)
qed

lemma strided_sum_coprime:
  fixes array :: "u64 list"
  assumes len: "length array = N" and N: "0 < N" and co: "coprime stride N"
    and nowrap: "(N - 1) * stride < 2 ^ 64"
  shows "sum_list (map (\<lambda>j. array ! (ulong (j * stride) mod N)) [0..<N]) = sum_list array"
proof -
  have "ulong (j * stride) = j * stride" if "j < N" for j
  proof -
    have "j \<le> N - 1" using that by simp
    then have "j * stride \<le> (N - 1) * stride" by (rule mult_le_mono1)
    then have "j * stride < 2 ^ 64" using nowrap by linarith
    then show ?thesis by (rule ulong_id)
  qed
  then have e1: "map (\<lambda>j. array ! (ulong (j * stride) mod N)) [0..<N] =
                  map (\<lambda>j. array ! (j * stride mod N)) [0..<N]"
    by (intro map_cong [OF refl]) simp
  have e2: "map (\<lambda>j. array ! (j * stride mod N)) [0..<N] =
            map (\<lambda>i. array ! i) (map (\<lambda>j. j * stride mod N) [0..<N])"
    by (simp add: comp_def)
  have e3: "sum_list (map (\<lambda>i. array ! i) (map (\<lambda>j. j * stride mod N) [0..<N])) =
            sum_list (map (\<lambda>i. array ! i) [0..<N])"
    by (rule sum_list_mset_cong) (rule stride_perm [OF co N])
  show ?thesis by (simp only: e1 e2 e3 map_nth_upt [OF len])
qed

text \<open>
  The bound on the products in \<open>strided_sum_coprime\<close> holds for the stride 7 of the program
  and every array that fits in memory. \<^verbatim>\<open>sum_bad_ma\<close> itself takes any \<^verbatim>\<open>unsigned long\<close>
  as its stride and reduces the wrapped product: called with three elements and the
  stride \<open>2 ^ 63\<close>, which no call of the program passes, it would raise no warning, read
  element 0 twice and element 1 never, and return 5.
\<close>

lemma strided_sum_large_stride:
  "\<not> stride_warning (2 ^ 63) 3
   \<and> sum_bad_ma_28 (Some [\<lparr>sum_f = 0, padding = []\<rparr>]) (load_array [0, 0, 0] 3) 3 1 (2 ^ 63)
       = Some (Inr 5)"
proof -
  have u: "[0..<3] = [0, 1, 2::nat]" by (simp add: upt_rec)
  have w: "\<not> stride_warning (2 ^ 63) 3"
    by (simp add: stride_warning_def gcd_loop.simps)
  have s: "sum_bad_ma_28 (Some [\<lparr>sum_f = 0, padding = []\<rparr>]) (load_array [0, 0, 0] 3) 3 1 (2 ^ 63)
       = Some (Inr 5)"
    by (simp add: sum_bad_ma_28_eq load_array_eq u ulong_def)
  show ?thesis using w s by simp
qed

lemma partitioned_sum:
  fixes g :: "nat \<Rightarrow> 'a::comm_monoid_add"
  assumes "0 < T" "sz < 2 ^ 64"
  shows "sum_list (map g (concat (map (thread_range sz T) [0..<T]))) = sum_list (map g [0..<sz])"
  by (simp only: concat_ranges [OF assms])

section \<open>Claim C1: the sum of a loaded array\<close>

text \<open>
  C1. Let the array hold \<open>value[i] = i + 1\<close> for \<open>i < N\<close>, with \<open>N \<ge> 1\<close> elements that fit
  in memory (\<open>N * 8 < 2 ^ 64\<close>), and let \<open>T \<ge> 1\<close> be an \<^verbatim>\<open>int\<close>. Then the sum returned is
  \<open>N (N + 1) / 2\<close> modulo \<open>2 ^ 64\<close> in the good mode, in the false-sharing mode, in the
  permuted mode for every permutation of \<open>[0, N)\<close>, and in the strided mode when the
  stride is coprime with \<open>N\<close>, which is when no warning is raised; the strided run
  returns. The stride of the strided mode is 7: \<^verbatim>\<open>main\<close> sets
  \<^verbatim>\<open>unsigned long stride = 7\<close> and passes it in the only call of the strided
  \<^verbatim>\<open>sum_bad_ma\<close>. A run of array\_sum\_memory\_access in each of its three modes makes its
  two requests, prints that sum and exits with status 0.
\<close>

theorem sum_equals_gauss:
  assumes N: "1 \<le> N" "N * 8 < 2 ^ 64" and T: "1 \<le> T" "T < 2 ^ 31"
    and mem: "length raw = N" "length padded = T" "length packed = T"
  shows "sum_good (Some padded) (load_array raw N) N T = Inr (of_nat (N * (N + 1) div 2))
       \<and> sum_bad_fs (Some packed) (load_array raw N) N T = Inr (of_nat (N * (N + 1) div 2))
       \<and> (mset p = mset [0..<N] \<longrightarrow>
            sum_bad_ma_29 (Some padded) (load_array raw N) N T p = Inr (of_nat (N * (N + 1) div 2)))
       \<and> (\<not> stride_warning 7 N \<longrightarrow>
            sum_bad_ma_28 (Some padded) (load_array raw N) N T 7 =
              Some (Inr (of_nat (N * (N + 1) div 2))))
       \<and> main_28 (Some raw) (Some padded) (Some packed) 4 ''good'' N (int T) =
           Some \<lparr>exit_status = 0, allocations = [N * 8, T * 64],
                 printed = [of_nat (N * (N + 1) div 2)]\<rparr>
       \<and> main_28 (Some raw) (Some padded) (Some packed) 4 ''bad-fs'' N (int T) =
           Some \<lparr>exit_status = 0, allocations = [N * 8, T * 8],
                 printed = [of_nat (N * (N + 1) div 2)]\<rparr>
       \<and> (\<not> stride_warning 7 N \<longrightarrow>
            main_28 (Some raw) (Some padded) (Some packed) 4 ''bad-ma'' N (int T) =
              Some \<lparr>exit_status = 0, allocations = [N * 8, T * 64],
                    printed = [of_nat (N * (N + 1) div 2)]\<rparr>)"
proof -
  let ?a = "load_array raw N"
  let ?g = "of_nat (N * (N + 1) div 2) :: u64"
  have len: "length ?a = N" by (simp add: load_array_eq [OF mem(1)])
  have T0: "0 < T" and N64: "N < 2 ^ 64" and NT: "N + T \<le> 2 ^ 64" using N T by simp_all
  have all: "sum_list (map (\<lambda>i. ?a ! i) [0..<N]) = ?g"
    by (simp only: map_nth_upt [OF len] sum_list_loaded [OF mem(1)])
  have good: "sum_good (Some padded) ?a N T = Inr ?g"
    by (simp only: sum_good_eq [OF mem(2)] partitioned_sum [OF T0 N64] all)
  have fs: "sum_bad_fs (Some packed) ?a N T = Inr ?g"
    by (simp only: sum_bad_fs_eq [OF mem(3)] partitioned_sum [OF T0 N64] all)
  have perm: "sum_bad_ma_29 (Some padded) ?a N T p = Inr ?g"
    if "mset p = mset [0..<N]"
    by (simp only: sum_bad_ma_29_eq [OF mem(2)] partitioned_sum [OF T0 N64]
        sum_list_perm [OF that] all)
  have stride: "sum_bad_ma_28 (Some padded) ?a N T 7 = Some (Inr ?g)"
    if "\<not> stride_warning 7 N"
  proof -
    have co: "coprime 7 N" using that by (simp add: stride_warning_iff)
    have nowrap: "(N - 1) * 7 < 2 ^ 64" using N by simp
    have "sum_list (map (\<lambda>j. ?a ! (ulong (j * 7) mod N)) [0..<N]) = sum_list ?a"
      using N(1) by (intro strided_sum_coprime [OF len _ co nowrap]) simp
    then show ?thesis
      by (simp only: sum_bad_ma_28_eq [OF mem(2) T0 NT] sum_list_loaded [OF mem(1)])
  qed
  have b: "ulong (N * 8) = N * 8" "ulong (T * 64) = T * 64" "ulong (T * 8) = T * 8"
    using N T by (simp_all add: ulong_def)
  have a: "N \<noteq> 0" "\<not> int T \<le> 0" "nat (int T) = T" using N T0 by simp_all
  have mgood: "main_28 (Some raw) (Some padded) (Some packed) 4 ''good'' N (int T) =
           Some \<lparr>exit_status = 0, allocations = [N * 8, T * 64], printed = [?g]\<rparr>"
    by (simp add: main_28_def Let_def a b T0 good)
  have mfs: "main_28 (Some raw) (Some padded) (Some packed) 4 ''bad-fs'' N (int T) =
           Some \<lparr>exit_status = 0, allocations = [N * 8, T * 8], printed = [?g]\<rparr>"
    by (simp add: main_28_def Let_def a b T0 fs)
  have mma: "main_28 (Some raw) (Some padded) (Some packed) 4 ''bad-ma'' N (int T) =
           Some \<lparr>exit_status = 0, allocations = [N * 8, T * 64], printed = [?g]\<rparr>"
    if "\<not> stride_warning 7 N"
    by (simp add: main_28_def Let_def a b T0 stride [OF that])
  show ?thesis using good fs perm stride mgood mfs mma by blast
qed

theorem sum_equals_gauss_witness:
  "sum_good (Some (replicate 3 \<lparr>sum_f = 9, padding = []\<rparr>)) (load_array [0, 0, 0, 0] 4) 4 3 = Inr 10
   \<and> sum_bad_fs (Some [9, 9, 9]) (load_array [0, 0, 0, 0] 4) 4 3 = Inr 10
   \<and> sum_bad_ma_29 (Some (replicate 3 \<lparr>sum_f = 9, padding = []\<rparr>)) (load_array [0, 0, 0, 0] 4)
         4 3 [2, 0, 3, 1] = Inr 10
   \<and> sum_bad_ma_28 (Some (replicate 3 \<lparr>sum_f = 9, padding = []\<rparr>)) (load_array [0, 0, 0, 0] 4)
         4 3 7 = Some (Inr 10)
   \<and> main_28 (Some [0, 0, 0, 0]) (Some (replicate 3 \<lparr>sum_f = 9, padding = []\<rparr>)) (Some [9, 9, 9])
         4 ''bad-ma'' 4 3 = Some \<lparr>exit_status = 0, allocations = [32, 192], printed = [10]\<rparr>"
proof -
  have "[0..<4] = [0, 1, 2, 3::nat]" by (simp add: upt_rec)
  then have p: "mset [2, 0, 3, 1] = mset [0..<4::nat]" by simp
  have w: "\<not> stride_warning 7 4"
    by (simp add: stride_warning_def gcd_loop.simps)
  have "(1::nat) \<le> 4" "(4::nat) * 8 < 2 ^ 64" "(1::nat) \<le> 3" "(3::nat) < 2 ^ 31"
    "length [0, 0, 0, 0::u64] = 4" "length (replicate 3 \<lparr>sum_f = 9, padding = []\<rparr>) = 3"
    "length [9, 9, 9::u64] = 3"
    by simp_all
  from sum_equals_gauss [OF this, of "[2, 0, 3, 1]"] p w
  show ?thesis by simp
qed

section \<open>The six partitioned reductions over the whole index range\<close>

lemma sum_good_total:
  assumes "length padded = T" "0 < T" "sz < 2 ^ 64"
  shows "sum_good (Some padded) array sz T = Inr (sum_list (map (\<lambda>i. array ! i) [0..<sz]))"
  by (simp only: sum_good_eq [OF assms(1)] partitioned_sum [OF assms(2,3)])

lemma sum_bad_fs_total:
  assumes "length packed = T" "0 < T" "sz < 2 ^ 64"
  shows "sum_bad_fs (Some packed) array sz T = Inr (sum_list (map (\<lambda>i. array ! i) [0..<sz]))"
  by (simp only: sum_bad_fs_eq [OF assms(1)] partitioned_sum [OF assms(2,3)])

lemma sum_bad_ma_29_total:
  assumes "length padded = T" "0 < T" "sz < 2 ^ 64"
  shows "sum_bad_ma_29 (Some padded) array sz T p =
         Inr (sum_list (map (\<lambda>i. array ! (p ! i)) [0..<sz]))"
  by (simp only: sum_bad_ma_29_eq [OF assms(1)] partitioned_sum [OF assms(2,3)])

lemma compare_good_total:
  assumes "length padded = T" "0 < T" "sz < 2 ^ 64"
  shows "compare_good (Some padded) A B sz T =
         Inr (sum_list (map (\<lambda>i. if A ! i \<noteq> B ! i then 1 else 0) [0..<sz]))"
  by (simp only: compare_good_eq [OF assms(1)] partitioned_sum [OF assms(2,3)])

lemma compare_bad_fs_total:
  assumes "length packed = T" "0 < T" "sz < 2 ^ 64"
  shows "compare_bad_fs (Some packed) A B sz T =
         Inr (sum_list (map (\<lambda>i. if A ! i \<noteq> B ! i then 1 else 0) [0..<sz]))"
  by (simp only: compare_bad_fs_eq [OF assms(1)] partitioned_sum [OF assms(2,3)])

lemma compare_bad_ma_total:
  assumes "length padded = T" "0 < T" "sz < 2 ^ 64"
  shows "compare_bad_ma (Some padded) A B sz T p =
         Inr (sum_list (map (\<lambda>i. if A ! (p ! i) \<noteq> B ! (p ! i) then 1 else 0) [0..<sz]))"
  by (simp only: compare_bad_ma_eq [OF assms(1)] partitioned_sum [OF assms(2,3)])

section \<open>Claim C2: the padded and the packed accumulators give the same result\<close>

text \<open>
  C2. For every input, every size and every thread count \<open>T \<ge> 1\<close>, the sum reduced over
  the padded slots (\<^verbatim>\<open>sum_good\<close>) is the sum reduced over the packed slots
  (\<^verbatim>\<open>sum_bad_fs\<close>), whatever the allocated slots held before; the same holds for the
  mismatch counts of \<^verbatim>\<open>compare_good\<close> and \<^verbatim>\<open>compare_bad_fs\<close>. Both traverse the chunks
  of the partitioning rule in the same order. Summing \<open>1, \<dots>, 1000\<close> with four threads
  gives 500500 under both layouts.
\<close>

theorem layout_equivalence:
  assumes "1 \<le> T" "length padded = T" "length packed = T"
    "length padded_d = T" "length packed_d = T"
  shows "sum_good (Some padded) array sz T = sum_bad_fs (Some packed) array sz T
       \<and> compare_good (Some padded_d) A B n T = compare_bad_fs (Some packed_d) A B n T
       \<and> (T = 4 \<and> length raw = 1000 \<longrightarrow>
            sum_good (Some padded) (load_array raw 1000) 1000 T = Inr 500500
          \<and> sum_bad_fs (Some packed) (load_array raw 1000) 1000 T = Inr 500500)"
proof (intro conjI impI)
  show "sum_good (Some padded) array sz T = sum_bad_fs (Some packed) array sz T"
    by (simp only: sum_good_eq [OF assms(2)] sum_bad_fs_eq [OF assms(3)])
  show "compare_good (Some padded_d) A B n T = compare_bad_fs (Some packed_d) A B n T"
    by (simp only: compare_good_eq [OF assms(4)] compare_bad_fs_eq [OF assms(5)])
next
  assume h: "T = 4 \<and> length raw = 1000"
  then have raw: "length raw = 1000" by simp
  have len: "length (load_array raw 1000) = 1000" by (simp add: load_array_eq [OF raw])
  have T0: "0 < T" using assms(1) by simp
  have total: "sum_list (map (\<lambda>i. load_array raw 1000 ! i) [0..<1000]) = (500500 :: u64)"
    by (simp only: map_nth_upt [OF len] sum_list_loaded [OF raw]) simp
  show "sum_good (Some padded) (load_array raw 1000) 1000 T = Inr 500500"
    using sum_good_total [OF assms(2) T0, of 1000 "load_array raw 1000"] total by simp
  show "sum_bad_fs (Some packed) (load_array raw 1000) 1000 T = Inr 500500"
    using sum_bad_fs_total [OF assms(3) T0, of 1000 "load_array raw 1000"] total by simp
qed

theorem layout_equivalence_witness:
  "sum_good (Some (replicate 4 \<lparr>sum_f = 7, padding = replicate 56 0\<rparr>)) (load_array (replicate 1000 0) 1000) 1000 4
     = sum_bad_fs (Some (replicate 4 7)) (load_array (replicate 1000 0) 1000) 1000 4
   \<and> sum_good (Some (replicate 4 \<lparr>sum_f = 7, padding = replicate 56 0\<rparr>)) (load_array (replicate 1000 0) 1000) 1000 4
     = Inr 500500
   \<and> sum_bad_fs (Some (replicate 4 7)) (load_array (replicate 1000 0) 1000) 1000 4 = Inr 500500
   \<and> compare_good (Some (replicate 4 \<lparr>diff_count = 7, padding_d = replicate 56 0\<rparr>)) [1, 2, 3] [1, 5, 3] 3 4
     = compare_bad_fs (Some (replicate 4 7)) [1, 2, 3] [1, 5, 3] 3 4"
proof -
  have "(1::nat) \<le> 4" "length (replicate 4 \<lparr>sum_f = 7, padding = replicate 56 0\<rparr>) = 4"
    "length (replicate 4 (7::u64)) = 4"
    "length (replicate 4 \<lparr>diff_count = 7, padding_d = replicate 56 0\<rparr>) = 4"
    "length (replicate 4 (7::u64)) = 4"
    by simp_all
  from layout_equivalence [OF this, of "load_array (replicate 1000 0) 1000" 1000 "[1, 2, 3]" "[1, 5, 3]" 3 "replicate 1000 0"]
  show ?thesis by simp
qed

section \<open>Sequential sums\<close>

lemma map_nth_take: "k \<le> length xs \<Longrightarrow> map (\<lambda>i. xs ! i) [0..<k] = take k xs"
proof -
  assume "k \<le> length xs"
  then have "map (\<lambda>i. xs ! i) [0..<k] = take k (map (\<lambda>i. xs ! i) [0..<length xs])"
    by (simp add: take_map)
  then show ?thesis by (simp add: map_nth)
qed

lemma sum_linear_eq: "sz \<le> length array \<Longrightarrow> sum_linear array sz = sum_list (take sz array)"
  by (simp add: sum_linear_def fold_add_sum_list map_nth_take)

lemma modify_and_sum_eq:
  "k \<le> length array \<Longrightarrow>
   modify_and_sum array k =
     (map (\<lambda>x. x + 1) (take k array) @ drop k array, sum_list (map (\<lambda>x. x + 1) (take k array)))"
  unfolding modify_and_sum_def
proof (induction k)
  case 0
  then show ?case by simp
next
  case (Suc k)
  then have k: "k < length array" by simp
  let ?a = "map (\<lambda>x. x + 1) (take k array) @ drop k array"
  have nth: "?a ! k = array ! k" using k by (simp add: nth_append)
  have upd: "?a[k := array ! k + 1] = map (\<lambda>x. x + 1) (take (Suc k) array) @ drop (Suc k) array"
    using k by (simp add: list_update_append take_Suc_conv_app_nth upd_conv_take_nth_drop
        flip: Cons_nth_drop_Suc)
  have nth': "(map (\<lambda>x. x + 1) (take (Suc k) array) @ drop (Suc k) array) ! k = array ! k + 1"
    using k by (simp add: nth_append take_Suc_conv_app_nth)
  show ?case
    using Suc.IH k by (simp add: nth upd nth' take_Suc_conv_app_nth Let_def nth_append)
qed

lemma sum_list_incremented:
  fixes xs :: "u64 list"
  shows "sum_list (map (\<lambda>x. x + 1) xs) = sum_list xs + of_nat (length xs)"
  by (induction xs) simp_all

section \<open>Claim C10: modify\_and\_sum adds one to every element and the size to the sum\<close>

text \<open>
  C10. For \<open>N \<ge> 1\<close> and an array of at least \<open>N\<close> elements, \<^verbatim>\<open>modify_and_sum\<close> leaves
  each of the first \<open>N\<close> elements at its old value plus 1 and every later element as it
  was, and the sum it prints is the sum of the first \<open>N\<close> old values plus \<open>N\<close>, modulo
  \<open>2 ^ 64\<close>, which is what \<^verbatim>\<open>sum_linear\<close> prints plus \<open>N\<close>. So a run of the program in the
  mode \<^verbatim>\<open>good\<close> prints a Linear Sum \<open>L\<close> and then the Modified Sum \<open>L + N\<close>.
\<close>

theorem modify_and_sum_adds_size:
  assumes "1 \<le> N" "N \<le> length array"
  shows "fst (modify_and_sum array N) = map (\<lambda>x. x + 1) (take N array) @ drop N array
       \<and> snd (modify_and_sum array N) = sum_list (take N array) + of_nat N
       \<and> snd (modify_and_sum array N) = sum_linear array N + of_nat N
       \<and> (3 \<le> argc \<and> length raw = N \<longrightarrow>
            main_10 (Some raw) indices_mem rnd argc ''good'' N =
              Some (Inr \<lparr>exit_status = 0, allocations = [ulong (N * 8)],
                         printed = [sum_linear (load_array raw N) N,
                                    sum_linear (load_array raw N) N + of_nat N]\<rparr>))"
proof (intro conjI impI)
  show "fst (modify_and_sum array N) = map (\<lambda>x. x + 1) (take N array) @ drop N array"
    by (simp add: modify_and_sum_eq [OF assms(2)])
  show s: "snd (modify_and_sum array N) = sum_list (take N array) + of_nat N"
    using assms(2) by (simp add: modify_and_sum_eq [OF assms(2)] sum_list_incremented)
  show "snd (modify_and_sum array N) = sum_linear array N + of_nat N"
    by (simp only: s sum_linear_eq [OF assms(2)])
next
  assume h: "3 \<le> argc \<and> length raw = N"
  then have ll: "length (load_array raw N) = N" by (simp add: load_array_eq)
  then have len: "N \<le> length (load_array raw N)" by simp
  have "snd (modify_and_sum (load_array raw N) N) = sum_linear (load_array raw N) N + of_nat N"
    by (simp add: modify_and_sum_eq [OF len] sum_list_incremented sum_linear_eq [OF len] ll)
  then show "main_10 (Some raw) indices_mem rnd argc ''good'' N =
              Some (Inr \<lparr>exit_status = 0, allocations = [ulong (N * 8)],
                         printed = [sum_linear (load_array raw N) N,
                                    sum_linear (load_array raw N) N + of_nat N]\<rparr>)"
    using h assms(1) by (simp add: main_10_def Let_def)
qed

theorem modify_and_sum_adds_size_witness:
  "modify_and_sum [5, 6, 7, 8] 3 = ([6, 7, 8, 8], 21)
   \<and> sum_linear [5, 6, 7, 8] 3 = 18
   \<and> main_10 (Some [0, 0, 0]) None (\<lambda>k. 0) 3 ''good'' 3 =
        Some (Inr \<lparr>exit_status = 0, allocations = [24], printed = [6, 9]\<rparr>)"
proof -
  have h: "(1::nat) \<le> 3" "(3::nat) \<le> length [5, 6, 7, 8::u64]" by simp_all
  have h': "(1::nat) \<le> 3" "(3::nat) \<le> length [1, 2, 3::u64]" by simp_all
  have u: "[0..<3] = [0, 1, 2::nat]" by (simp add: upt_rec)
  have l: "sum_linear [5, 6, 7, 8] 3 = (18::u64)" by (simp add: sum_linear_def u)
  have l': "sum_linear (load_array [0, 0, 0] 3) 3 = (6::u64)"
    by (simp add: sum_linear_def load_array_def u)
  have m: "modify_and_sum [5, 6, 7, 8] 3 = ([6, 7, 8, 8], 21)"
    using modify_and_sum_adds_size [OF h] l by (simp add: prod_eq_iff)
  have g: "main_10 (Some [0, 0, 0]) None (\<lambda>k. 0) 3 ''good'' 3 =
        Some (Inr \<lparr>exit_status = 0, allocations = [24], printed = [6, 9]\<rparr>)"
    using modify_and_sum_adds_size [OF h', of 3 "[0, 0, 0]" None "\<lambda>k. 0"] l'
    by (simp add: ulong_def)
  show ?thesis using m l g by simp
qed

section \<open>The shuffle loop\<close>

lemma shuffle_loop_pos:
  "0 < i \<Longrightarrow> shuffle_loop rnd k i indices =
     (let d = ulong (i + 1)
      in if d = 0 then Inl Div_by_zero
         else let j = rnd k mod d
              in if i < length indices \<and> j < length indices
                 then shuffle_loop rnd (Suc k) (i - 1) (indices[i := indices ! j, j := indices ! i])
                 else Inl Out_of_bounds)"
  by (cases i) (simp_all add: Let_def)

lemma shuffle_loop_perm:
  assumes "i < length indices" "i + 1 < 2 ^ 64"
  shows "\<exists>p. shuffle_loop rnd k i indices = Inr p \<and> mset p = mset indices"
  using assms
proof (induction i arbitrary: k indices)
  case 0
  then show ?case by simp
next
  case (Suc i)
  let ?j = "rnd k mod Suc (Suc i)"
  let ?swapped = "indices[Suc i := indices ! ?j, ?j := indices ! Suc i]"
  have d: "ulong (Suc (Suc i)) = Suc (Suc i)" using Suc.prems(2) by (simp add: ulong_def)
  have j: "?j < length indices"
  proof -
    have "?j < Suc (Suc i)" by (rule mod_less_divisor) simp
    then show ?thesis using Suc.prems(1) by linarith
  qed
  have "i < length ?swapped" "i + 1 < 2 ^ 64" using Suc.prems by simp_all
  then obtain p where p: "shuffle_loop rnd (Suc k) i ?swapped = Inr p" "mset p = mset ?swapped"
    using Suc.IH by blast
  have "mset ?swapped = mset indices"
    using j Suc.prems(1) by (rule mset_swap)
  moreover have "shuffle_loop rnd k (Suc i) indices = shuffle_loop rnd (Suc k) i ?swapped"
    using Suc.prems(1) j by (simp add: d Let_def)
  ultimately show ?case using p by simp
qed

lemma usub_Suc: "Suc m < 2 ^ 64 \<Longrightarrow> usub (Suc m) 1 = m"
proof -
  assume "Suc m < 2 ^ 64"
  then have "m < 2 ^ 64" by simp
  moreover have "2 ^ 64 + Suc m - 1 = m + 2 ^ 64" by simp
  ultimately show ?thesis by (simp only: usub_def mod_add_self2 mod_less)
qed

lemma shuffle_array_perm:
  assumes "1 \<le> length indices" "length indices < 2 ^ 64"
  shows "\<exists>p. shuffle_array rnd indices (length indices) = Inr p \<and> mset p = mset indices"
proof -
  obtain m where m: "length indices = Suc m"
    using assms(1) by (cases "length indices") auto
  have "usub (length indices) 1 = m"
    using assms(2) by (simp only: m usub_Suc)
  moreover have "m < length indices" "m + 1 < 2 ^ 64"
    using assms(2) m by simp_all
  ultimately show ?thesis
    using shuffle_loop_perm [of m indices rnd 0]
    by (simp only: shuffle_array_def)
qed

text \<open>
  For every \<open>N \<ge> 1\<close> (an \<^verbatim>\<open>unsigned long\<close>) and every sequence of values of \<^verbatim>\<open>rand()\<close>,
  the generator applied to the identity sequence of length \<open>N\<close> returns, with every index
  access in bounds and no division by zero, a sequence that holds every integer of
  \<open>[0, N)\<close> exactly once; for \<open>N = 1\<close> it returns the sequence unchanged.
\<close>

lemma shuffle_is_permutation:
  assumes "1 \<le> N" "N < 2 ^ 64"
  shows "(\<exists>p. shuffle_array rnd [0..<N] N = Inr p \<and> mset p = mset [0..<N])
       \<and> (\<exists>p. shuffle_indices rnd [0..<N] N = Inr p \<and> mset p = mset [0..<N])
       \<and> (N = 1 \<longrightarrow> shuffle_array rnd [0..<N] N = Inr [0..<N]
                   \<and> shuffle_indices rnd [0..<N] N = Inr [0..<N])"
proof -
  have same: "shuffle_indices rnd xs n = shuffle_array rnd xs n" for xs n
    by (simp add: shuffle_indices_def shuffle_array_def)
  have perm: "\<exists>p. shuffle_array rnd [0..<N] N = Inr p \<and> mset p = mset [0..<N]"
    using shuffle_array_perm [of "[0..<N]" rnd] assms by simp
  have one: "shuffle_array rnd [0..<N] N = Inr [0..<N]" if "N = 1"
    using that by (simp add: shuffle_array_def usub_def)
  show ?thesis using perm one by (simp only: same) blast
qed

lemma shuffle_six_elements:
  "shuffle_array (\<lambda>k. 3 * k + 1) [0, 1, 2, 3, 4, 5] 6 = Inr [0, 2, 5, 3, 4, 1]
   \<and> mset [0, 2, 5, 3, 4, 1] = mset [0..<6::nat]
   \<and> shuffle_array (\<lambda>k. 3 * k + 1) [0] 1 = Inr [0]"
proof -
  have u: "[0..<6] = [0, 1, 2, 3, 4, 5::nat]" "[0..<1] = [0::nat]" by (simp_all add: upt_rec)
  have h: "(1::nat) \<le> 6" "(6::nat) < 2 ^ 64" by simp_all
  have h1: "(1::nat) \<le> 1" "(1::nat) < 2 ^ 64" by simp_all
  have e: "shuffle_array (\<lambda>k. 3 * k + 1) [0, 1, 2, 3, 4, 5] 6 = Inr [0, 2, 5, 3, 4, 1]"
    by code_simp
  from shuffle_is_permutation [OF h, of "\<lambda>k. 3 * k + 1"] e
  have m: "mset [0, 2, 5, 3, 4, 1] = mset [0..<6::nat]" by (auto simp: u)
  from shuffle_is_permutation [OF h1, of "\<lambda>k. 3 * k + 1"]
  have o: "shuffle_array (\<lambda>k. 3 * k + 1) [0] 1 = Inr [0]" by (simp add: u)
  show ?thesis using e m o by simp
qed

section \<open>Claim C6: the permutation generator on a sequence of length 0\<close>

text \<open>
  C6. For a sequence of length 0 the generator is not a no-op: \<^verbatim>\<open>size - 1\<close> wraps to
  \<open>2 ^ 64 - 1\<close>, the loop is entered, and \<^verbatim>\<open>i + 1\<close> wraps to 0, the divisor of
  \<^verbatim>\<open>rand() % (i + 1)\<close>. A run of matrix\_compare\_memory\_modes gets there. Called with the
  mode \<^verbatim>\<open>bad-ma\<close>, \<open>N = 2 ^ 32\<close> and one thread, it passes the test \<^verbatim>\<open>N == 0\<close>, computes
  \<^verbatim>\<open>total_elements = N * N\<close>, which is 0, and, when \<^verbatim>\<open>malloc\<close> returns a block for each of
  its requests of 0 bytes, calls \<^verbatim>\<open>shuffle_indices\<close> on 0 elements and divides by zero.
  Called with \<open>N = 0\<close> it exits with status 1 before any request.
\<close>

theorem shuffle_reached_with_size_zero:
  "main_31 (Some []) (Some []) (Some []) padded_mem packed_mem rnd 4 ''bad-ma'' 4294967296 1
     = Inl Div_by_zero
   \<and> main_31 A_mem B_mem indices_mem padded_mem packed_mem rnd 4 ''bad-ma'' 0 1
     = Inr \<lparr>exit_status = 1, allocations = [], printed = []\<rparr>
   \<and> ulong (4294967296 * 4294967296) = 0
   \<and> shuffle_indices rnd (fill_identity [] 0) 0 = Inl Div_by_zero
   \<and> shuffle_array rnd (fill_identity [] 0) 0 = Inl Div_by_zero"
proof -
  have w: "ulong (4294967296 * 4294967296) = 0" by (simp add: ulong_def)
  then have w': "ulong 18446744073709551616 = 0" by simp
  have i: "initialize_matrices [] [] 0 = ([], [])" by (simp add: initialize_matrices_def)
  have f: "fill_identity [] 0 = []" by (simp add: fill_identity_def)
  have s: "shuffle_loop rnd 0 (usub 0 1) [] = Inl Div_by_zero"
    by (simp add: usub_def shuffle_loop_pos ulong_def)
  then have s': "shuffle_loop rnd 0 (usub 0 (Suc 0)) [] = Inl Div_by_zero" by simp
  have m: "main_31 (Some []) (Some []) (Some []) padded_mem packed_mem rnd 4 ''bad-ma'' 4294967296 1
     = Inl Div_by_zero"
    by (simp add: main_31_def w' i f s' shuffle_indices_def Let_def)
  have z: "main_31 A_mem B_mem indices_mem padded_mem packed_mem rnd 4 ''bad-ma'' 0 1
     = Inr \<lparr>exit_status = 1, allocations = [], printed = []\<rparr>"
    by (simp add: main_31_def)
  show ?thesis using w f s m z by (simp add: shuffle_indices_def shuffle_array_def)
qed

section \<open>Matrix initialisation and comparison\<close>

lemma init_fill:
  "k \<le> length A0 \<Longrightarrow> k \<le> length B0 \<Longrightarrow>
   fold (\<lambda>i (A, B). let A = A[i := g i] in (A, B[i := A ! i])) [0..<k] (A0, B0) =
     (map g [0..<k] @ drop k A0, map g [0..<k] @ drop k B0)"
proof (induction k)
  case 0
  then show ?case by simp
next
  case (Suc k)
  then have k: "k < length A0" "k < length B0" by simp_all
  have a: "(map g [0..<k] @ drop k A0)[k := g k] = map g [0..<Suc k] @ drop (Suc k) A0"
    using k(1) by (simp add: list_update_append upd_conv_take_nth_drop flip: Cons_nth_drop_Suc)
  have b: "(map g [0..<k] @ drop k B0)[k := g k] = map g [0..<Suc k] @ drop (Suc k) B0"
    using k(2) by (simp add: list_update_append upd_conv_take_nth_drop flip: Cons_nth_drop_Suc)
  have n: "(map g [0..<Suc k] @ drop (Suc k) A0) ! k = g k"
    by (simp add: nth_append)
  show ?case
    using Suc.IH k by (simp add: Let_def a [simplified] b [simplified] n [simplified])
qed

lemma fold_update_length: "length (fold (\<lambda>i B. B[i := h i]) xs B) = length B"
  by (induction xs arbitrary: B) simp_all

lemma fold_update_nth:
  "j < length B \<Longrightarrow>
   fold (\<lambda>i B. B[i := h i]) xs B ! j = (if j \<in> set xs then h j else B ! j)"
proof (induction xs arbitrary: B)
  case Nil
  then show ?case by simp
next
  case (Cons x xs)
  then have "fold (\<lambda>i B. B[i := h i]) xs (B[x := h x]) ! j =
             (if j \<in> set xs then h j else B[x := h x] ! j)"
    by (intro Cons.IH) simp
  then show ?case using Cons.prems by (auto simp: nth_list_update)
qed

lemma thousandth_indices:
  "j \<in> set (map (\<lambda>k. 1000 * k) [0..<(N + 999) div 1000]) \<longleftrightarrow> j mod 1000 = 0 \<and> j < N"
proof
  assume "j \<in> set (map (\<lambda>k. 1000 * k) [0..<(N + 999) div 1000])"
  then obtain k where k: "j = 1000 * k" "k < (N + 999) div 1000" by auto
  from k(2) have "Suc k \<le> (N + 999) div 1000" by simp
  then have "Suc k * 1000 \<le> N + 999" by (simp only: less_eq_div_iff_mult_less_eq)
  then have "j < N" using k(1) by simp
  moreover have "j mod 1000 = 0" using k(1) by simp
  ultimately show "j mod 1000 = 0 \<and> j < N" by simp
next
  assume h: "j mod 1000 = 0 \<and> j < N"
  have j: "j = 1000 * (j div 1000)"
    using h mult_div_mod_eq [of 1000 j] by simp
  have "Suc (j div 1000) * 1000 \<le> N + 999" using h j by simp
  then have "Suc (j div 1000) \<le> (N + 999) div 1000"
    by (simp only: less_eq_div_iff_mult_less_eq)
  then have "j div 1000 \<in> set [0..<(N + 999) div 1000]" by simp
  then have "1000 * (j div 1000) \<in> set (map (\<lambda>k. 1000 * k) [0..<(N + 999) div 1000])"
    by (simp only: set_map) (rule imageI)
  then show "j \<in> set (map (\<lambda>k. 1000 * k) [0..<(N + 999) div 1000])"
    using j by simp
qed

lemma initialize_matrices_eq:
  assumes "length A0 = N" "length B0 = N"
  shows "initialize_matrices A0 B0 N =
         (map (\<lambda>i. of_nat (i mod 100)) [0..<N],
          map (\<lambda>i. if i mod 1000 = 0 then of_nat (i mod 100) + 1 else of_nat (i mod 100)) [0..<N])"
proof -
  let ?A = "map (\<lambda>i. of_nat (i mod 100) :: u64) [0..<N]"
  let ?xs = "map (\<lambda>k. 1000 * k) [0..<(N + 999) div 1000]"
  let ?B = "fold (\<lambda>i B. B[i := ?A ! i + 1]) ?xs ?A"
  have first: "fold (\<lambda>i (A, B). let A = A[i := of_nat (i mod 100)] in (A, B[i := A ! i])) [0..<N] (A0, B0)
      = (?A, ?A)"
    using init_fill [of N A0 B0 "\<lambda>i. of_nat (i mod 100)"] assms by simp
  have "?B = map (\<lambda>i. if i mod 1000 = 0 then of_nat (i mod 100) + 1 else of_nat (i mod 100)) [0..<N]"
  proof (rule nth_equalityI)
    show "length ?B = length (map (\<lambda>i. if i mod 1000 = 0 then of_nat (i mod 100) + 1 else of_nat (i mod 100) :: u64) [0..<N])"
      by (simp add: fold_update_length)
  next
    fix j assume "j < length ?B"
    then have j: "j < N" by (simp add: fold_update_length)
    then have "?B ! j = (if j \<in> set ?xs then ?A ! j + 1 else ?A ! j)"
      by (intro fold_update_nth) simp
    then show "?B ! j = map (\<lambda>i. if i mod 1000 = 0 then of_nat (i mod 100) + 1 else of_nat (i mod 100)) [0..<N] ! j"
      using j by (simp only: thousandth_indices) simp
  qed
  then show ?thesis
    by (simp add: initialize_matrices_def first)
qed

lemma small_div_Suc: "r < 1000 \<Longrightarrow> (Suc r + 999) div 1000 = (1::nat)"
proof -
  assume r: "r < 1000"
  have "Suc r + 999 = r + 1000" by simp
  then show ?thesis using r by (simp only: div_add_self2)
qed

lemma small_div: "r < 1000 \<Longrightarrow> (r + 999) div 1000 = (if r = 0 then 0 else (1::nat))"
proof (cases r)
  case 0
  then show ?thesis by simp
next
  case (Suc r')
  assume "r < 1000"
  then have "r' < 1000" using Suc by simp
  then show ?thesis using small_div_Suc [of r'] Suc by simp
qed

lemma div_1000_Suc: "(Suc N + 999) div 1000 = (N + 999) div 1000 + (if N mod 1000 = 0 then 1 else 0)"
proof -
  define q r where "q = N div 1000" and "r = N mod 1000"
  have N: "N = 1000 * q + r" and r: "r < 1000" by (simp_all add: q_def r_def)
  have m: "N mod 1000 = r" by (simp add: r_def)
  have "(Suc N + 999) div 1000 = q + (Suc r + 999) div 1000"
    by (simp add: N)
  moreover have "(N + 999) div 1000 = q + (r + 999) div 1000"
    by (simp add: N add.assoc)
  ultimately show ?thesis
    by (simp only: m small_div [OF r] small_div_Suc [OF r]) simp
qed

lemma div_1000_pred: "1 \<le> N \<Longrightarrow> (N + 999) div 1000 = (N - 1) div 1000 + (1::nat)"
proof -
  assume "1 \<le> N"
  then have "N + 999 = (N - 1) + 1000" by simp
  then show ?thesis by (simp only: div_add_self2)
qed

lemma unat_of_nat_u64: "k < 2 ^ 64 \<Longrightarrow> unat (of_nat k :: u64) = k"
  by (simp add: unat_of_nat)

lemma count_thousandth:
  "sum_list (map (\<lambda>i. if i mod 1000 = 0 then 1 else 0) [0..<N]) = (of_nat ((N + 999) div 1000) :: u64)"
proof (induction N)
  case 0
  then show ?case by simp
next
  case (Suc N)
  have "(of_nat ((Suc N + 999) div 1000) :: u64) =
        of_nat ((N + 999) div 1000) + (if N mod 1000 = 0 then 1 else 0)"
    by (simp only: div_1000_Suc) simp
  moreover have "sum_list (map (\<lambda>i. if i mod 1000 = 0 then 1 else 0) [0..<Suc N]) =
        sum_list (map (\<lambda>i. if i mod 1000 = 0 then 1 else 0) [0..<N]) +
        (if N mod 1000 = 0 then 1 else (0::u64))"
    by simp
  ultimately show ?case by (simp only: Suc)
qed

lemma mismatches_initialized:
  assumes "length A0 = N" "length B0 = N" "1 \<le> N"
  shows "sum_list (map (\<lambda>i. if fst (initialize_matrices A0 B0 N) ! i \<noteq> snd (initialize_matrices A0 B0 N) ! i
                            then 1 else 0) [0..<N]) = (of_nat ((N - 1) div 1000 + 1) :: u64)"
proof -
  have "map (\<lambda>i. if fst (initialize_matrices A0 B0 N) ! i \<noteq> snd (initialize_matrices A0 B0 N) ! i
                  then 1 else 0) [0..<N] = map (\<lambda>i. if i mod 1000 = 0 then 1 else (0::u64)) [0..<N]"
    by (rule map_cong [OF refl]) (simp add: initialize_matrices_eq [OF assms(1,2)])
  moreover have "(N + 999) div 1000 = (N - 1) div 1000 + 1" using assms(3) by (rule div_1000_pred)
  ultimately show ?thesis by (simp only: count_thousandth)
qed

section \<open>Claim C5: the mismatch count\<close>

text \<open>
  C5. For every total element count \<open>N \<ge> 1\<close> (an \<^verbatim>\<open>unsigned long\<close>) and every thread count
  \<open>T \<ge> 1\<close>, after \<^verbatim>\<open>initialize_matrices\<close> the comparison returns
  \<open>(N - 1) div 1000 + 1\<close> in the good mode, in the false-sharing mode and, for every
  permutation of \<open>[0, N)\<close> as the shuffled indices, in the permuted mode; the count does
  not wrap.
\<close>

theorem mismatch_count:
  assumes "1 \<le> N" "N < 2 ^ 64" "1 \<le> T"
    and "length A0 = N" "length B0 = N"
    and "length padded = T" "length packed = T"
  shows "compare_good (Some padded) (fst (initialize_matrices A0 B0 N))
            (snd (initialize_matrices A0 B0 N)) N T = Inr (of_nat ((N - 1) div 1000 + 1))
       \<and> compare_bad_fs (Some packed) (fst (initialize_matrices A0 B0 N))
            (snd (initialize_matrices A0 B0 N)) N T = Inr (of_nat ((N - 1) div 1000 + 1))
       \<and> (mset p = mset [0..<N] \<longrightarrow>
            compare_bad_ma (Some padded) (fst (initialize_matrices A0 B0 N))
              (snd (initialize_matrices A0 B0 N)) N T p = Inr (of_nat ((N - 1) div 1000 + 1)))
       \<and> unat (of_nat ((N - 1) div 1000 + 1) :: u64) = (N - 1) div 1000 + 1"
proof (intro conjI impI)
  have T0: "0 < T" using assms(3) by simp
  note m = mismatches_initialized [OF assms(4,5,1)]
  show "compare_good (Some padded) (fst (initialize_matrices A0 B0 N))
            (snd (initialize_matrices A0 B0 N)) N T = Inr (of_nat ((N - 1) div 1000 + 1))"
    by (simp only: compare_good_total [OF assms(6) T0 assms(2)] m)
  show "compare_bad_fs (Some packed) (fst (initialize_matrices A0 B0 N))
            (snd (initialize_matrices A0 B0 N)) N T = Inr (of_nat ((N - 1) div 1000 + 1))"
    by (simp only: compare_bad_fs_total [OF assms(7) T0 assms(2)] m)
  show "compare_bad_ma (Some padded) (fst (initialize_matrices A0 B0 N))
              (snd (initialize_matrices A0 B0 N)) N T p = Inr (of_nat ((N - 1) div 1000 + 1))"
    if "mset p = mset [0..<N]"
    using sum_list_perm [OF that, of "\<lambda>i. if fst (initialize_matrices A0 B0 N) ! i \<noteq> snd (initialize_matrices A0 B0 N) ! i then (1::u64) else 0"]
    by (simp only: compare_bad_ma_total [OF assms(6) T0 assms(2)] m)
  have "(N - 1) div 1000 \<le> N - 1" by (rule div_le_dividend)
  then have "(N - 1) div 1000 + 1 < 2 ^ 64" using assms(1,2) by linarith
  then show "unat (of_nat ((N - 1) div 1000 + 1) :: u64) = (N - 1) div 1000 + 1"
    by (rule unat_of_nat_u64)
qed

theorem mismatch_count_witness:
  "compare_good (Some [\<lparr>diff_count = 5, padding_d = []\<rparr>, \<lparr>diff_count = 6, padding_d = []\<rparr>])
      (fst (initialize_matrices (replicate 1001 7) (replicate 1001 8) 1001))
      (snd (initialize_matrices (replicate 1001 7) (replicate 1001 8) 1001)) 1001 2 = Inr 2
   \<and> compare_bad_fs (Some [5, 6])
      (fst (initialize_matrices (replicate 1001 7) (replicate 1001 8) 1001))
      (snd (initialize_matrices (replicate 1001 7) (replicate 1001 8) 1001)) 1001 2 = Inr 2
   \<and> compare_bad_ma (Some [\<lparr>diff_count = 5, padding_d = []\<rparr>, \<lparr>diff_count = 6, padding_d = []\<rparr>])
      (fst (initialize_matrices (replicate 1001 7) (replicate 1001 8) 1001))
      (snd (initialize_matrices (replicate 1001 7) (replicate 1001 8) 1001)) 1001 2 (rev [0..<1001])
      = Inr 2"
proof -
  have h: "(1::nat) \<le> 1001" "(1001::nat) < 2 ^ 64" "(1::nat) \<le> 2"
    "length (replicate 1001 (7::u64)) = 1001" "length (replicate 1001 (8::u64)) = 1001"
    "length [\<lparr>diff_count = 5, padding_d = []\<rparr>, \<lparr>diff_count = 6, padding_d = []\<rparr>] = 2"
    "length [5, 6::u64] = 2"
    by (simp_all only: length_replicate) simp_all
  have v: "(of_nat ((1001 - 1) div 1000 + 1) :: u64) = 2" by simp
  have p: "mset (rev [0..<1001]) = mset [0..<1001]" by (rule mset_rev)
  note t = mismatch_count [OF h, of "rev [0..<1001]", unfolded v]
  from t p show ?thesis by blast
qed

section \<open>Writing the cells of a matrix\<close>

lemma write_cell_length: "length (write_cell c v a) = length a"
  by (cases c) (simp add: write_cell_def)

lemma write_cell_row_length: "length (write_cell c v a ! r) = length (a ! r)"
proof (cases c)
  case (Pair r' k')
  show ?thesis
  proof (cases "r' < length a")
    case True
    then show ?thesis by (cases "r = r'") (simp_all add: Pair write_cell_def)
  next
    case False
    then show ?thesis by (simp add: Pair write_cell_def list_update_beyond not_less)
  qed
qed

lemma write_cell_nth:
  assumes "r < length a" "k < length (a ! r)"
  shows "write_cell c v a ! r ! k = (if c = (r, k) then Some v else a ! r ! k)"
proof (cases c)
  case (Pair r' k')
  show ?thesis
    using assms by (cases "r = r'"; cases "k = k'") (simp_all add: Pair write_cell_def)
qed

lemma fold_write_length: "length (fold (\<lambda>c. write_cell c (v c)) cs a) = length a"
  by (induction cs arbitrary: a) (simp_all add: write_cell_length)

lemma fold_write_row_length:
  "length (fold (\<lambda>c. write_cell c (v c)) cs a ! r) = length (a ! r)"
  by (induction cs arbitrary: a) (simp_all add: write_cell_row_length)

lemma fold_write_nth:
  assumes "r < length a" "k < length (a ! r)"
  shows "fold (\<lambda>c. write_cell c v) cs a ! r ! k = (if (r, k) \<in> set cs then Some v else a ! r ! k)"
  using assms
proof (induction cs arbitrary: a)
  case Nil
  then show ?case by simp
next
  case (Cons c cs)
  have "fold (\<lambda>c. write_cell c v) cs (write_cell c v a) ! r ! k =
        (if (r, k) \<in> set cs then Some v else write_cell c v a ! r ! k)"
    using Cons.prems by (intro Cons.IH) (simp_all add: write_cell_length write_cell_row_length)
  then show ?case using Cons.prems by (auto simp: write_cell_nth)
qed

lemma fold_write_all:
  assumes "length a = N" "\<forall>row\<in>set a. length row = N" "set cs = {0..<N} \<times> {0..<N}"
  shows "fold (\<lambda>c. write_cell c v) cs a = replicate N (replicate N (Some v))"
proof (rule nth_equalityI)
  show "length (fold (\<lambda>c. write_cell c v) cs a) = length (replicate N (replicate N (Some v)))"
    using assms(1) fold_write_length [of "\<lambda>_. v" cs a] by simp
next
  fix r assume "r < length (fold (\<lambda>c. write_cell c v) cs a)"
  then have r: "r < N" using assms(1) fold_write_length [of "\<lambda>_. v" cs a] by simp
  then have row: "length (a ! r) = N" using assms(1,2) by simp
  have "fold (\<lambda>c. write_cell c v) cs a ! r = replicate N (Some v)"
  proof (rule nth_equalityI)
    show "length (fold (\<lambda>c. write_cell c v) cs a ! r) = length (replicate N (Some v))"
      using row fold_write_row_length [of "\<lambda>_. v" cs a r] by simp
  next
    fix k assume "k < length (fold (\<lambda>c. write_cell c v) cs a ! r)"
    then have k: "k < N" using row fold_write_row_length [of "\<lambda>_. v" cs a r] by simp
    then show "fold (\<lambda>c. write_cell c v) cs a ! r ! k = replicate N (Some v) ! k"
      using r row assms(1,3) by (simp add: fold_write_nth)
  qed
  then show "fold (\<lambda>c. write_cell c v) cs a ! r = replicate N (replicate N (Some v)) ! r"
    using r by simp
qed

lemma good_mode_writes_product: "good_mode_writes N = List.product [0..<N] [0..<N]"
proof -
  have "concat (map (\<lambda>i. map (\<lambda>j. (i, j)) ys) xs) = List.product xs ys" for xs ys :: "nat list"
    by (induction xs) simp_all
  then show ?thesis by (simp add: good_mode_writes_def)
qed

lemma bad_ma_mode_writes_product:
  "bad_ma_mode_writes N = map prod.swap (List.product [0..<N] [0..<N])"
proof -
  have "concat (map (\<lambda>j. map (\<lambda>i. (i, j)) ys) xs) = map prod.swap (List.product xs ys)"
    for xs ys :: "nat list"
    by (induction xs) simp_all
  then show ?thesis by (simp add: bad_ma_mode_writes_def)
qed

lemma good_mode_writes_once:
  "distinct (good_mode_writes N) \<and> set (good_mode_writes N) = {0..<N} \<times> {0..<N}"
  by (simp add: good_mode_writes_product distinct_product)

lemma bad_ma_mode_writes_once:
  "distinct (bad_ma_mode_writes N) \<and> set (bad_ma_mode_writes N) = {0..<N} \<times> {0..<N}"
  by (auto simp: bad_ma_mode_writes_product distinct_product distinct_map)

lemma good_mode_all:
  assumes "length a = N" "\<forall>row\<in>set a. length row = N"
  shows "good_mode a N T = replicate N (replicate N (Some 17))"
  unfolding good_mode_def using assms good_mode_writes_once [of N] by (intro fold_write_all) simp_all

lemma bad_ma_mode_all:
  assumes "length a = N" "\<forall>row\<in>set a. length row = N"
  shows "bad_ma_mode a N T = replicate N (replicate N (Some 17))"
  unfolding bad_ma_mode_def using assms bad_ma_mode_writes_once [of N] by (intro fold_write_all) simp_all

lemma fold_write_nth_val:
  assumes "r < length a" "k < length (a ! r)"
  shows "fold (\<lambda>c. write_cell c (v c)) cs a ! r ! k =
         (if (r, k) \<in> set cs then Some (v (r, k)) else a ! r ! k)"
  using assms
proof (induction cs arbitrary: a)
  case Nil
  then show ?case by simp
next
  case (Cons c cs)
  have "fold (\<lambda>c. write_cell c (v c)) cs (write_cell c (v c) a) ! r ! k =
        (if (r, k) \<in> set cs then Some (v (r, k)) else write_cell c (v c) a ! r ! k)"
    using Cons.prems by (intro Cons.IH) (simp_all add: write_cell_length write_cell_row_length)
  then show ?case using Cons.prems by (auto simp: write_cell_nth)
qed

lemma strided_rows_eq:
  assumes "0 < T"
  shows "strided_rows N T j seen = Some (seen @ filter (\<lambda>x. x mod T = j mod T) [j..<N])"
proof (induction "N - j" arbitrary: j seen rule: less_induct)
  case less
  show ?case
  proof (cases "j < N")
    case False
    then show ?thesis by (subst strided_rows.simps) simp
  next
    case True
    have "N - (j + T) < N - j" using True assms by simp
    then have IH: "strided_rows N T (j + T) (seen @ [j]) =
         Some ((seen @ [j]) @ filter (\<lambda>x. x mod T = (j + T) mod T) [j + T..<N])"
      by (rule less)
    have "filter (\<lambda>x. x mod T = j mod T) [Suc j..<N] = filter (\<lambda>x. x mod T = j mod T) [j + T..<N]"
      using assms by (intro filter_upt_skip) (simp_all add: residue_gap)
    then have "filter (\<lambda>x. x mod T = j mod T) [j..<N] =
               j # filter (\<lambda>x. x mod T = j mod T) [j + T..<N]"
      using True by (simp add: upt_conv_Cons)
    then show ?thesis
      using True IH by (subst strided_rows.simps) simp
  qed
qed

lemma fold_concat_fold: "fold f (concat xss) = fold (fold f) xss"
  by (induction xss) simp_all

lemma bad_fs_mode_eq:
  assumes "0 < T"
  shows "bad_fs_mode sched a N T =
         Some (fold (\<lambda>c. write_cell c (17 + int (sched (snd c))))
                 (concat (map (\<lambda>i. map (\<lambda>j. (j, i))
                                  (filter (\<lambda>x. x mod T = sched i mod T) [sched i..<N])) [0..<N]))
                 a)"
proof -
  have "bad_fs_mode sched a N T =
        Some (fold (\<lambda>i. fold (\<lambda>j. write_cell (j, i) (17 + int (sched i)))
                            (filter (\<lambda>x. x mod T = sched i mod T) [sched i..<N])) [0..<N] a)"
    unfolding bad_fs_mode_def
    by (rule fold_opt_Some) (simp add: strided_rows_eq [OF assms] Let_def)
  then show ?thesis
    by (simp add: fold_concat_fold fold_map comp_def)
qed

lemma bad_fs_mode_cell:
  assumes T: "0 < T" and dims: "length a = N" "\<forall>row\<in>set a. length row = N"
    and sched: "\<forall>i<N. sched i < T" and jk: "j < N" "i < N"
  shows "\<exists>a'. bad_fs_mode sched a N T = Some a' \<and>
           a' ! j ! i = (if j mod T = sched i then Some (17 + int (sched i)) else a ! j ! i)"
proof -
  let ?cells = "concat (map (\<lambda>i. map (\<lambda>j. (j, i))
                                  (filter (\<lambda>x. x mod T = sched i mod T) [sched i..<N])) [0..<N])"
  have s: "sched i < T" using sched jk(2) by simp
  have row: "length (a ! j) = N" using dims jk(1) by simp
  have "(j, i) \<in> set ?cells \<longleftrightarrow> j mod T = sched i mod T \<and> sched i \<le> j"
    using jk by auto
  also have "\<dots> \<longleftrightarrow> j mod T = sched i"
  proof -
    have "sched i \<le> j" if "j mod T = sched i"
      using that by (metis mod_less_eq_dividend)
    then show ?thesis using s by auto
  qed
  finally have mem: "(j, i) \<in> set ?cells \<longleftrightarrow> j mod T = sched i" .
  have "fold (\<lambda>c. write_cell c (17 + int (sched (snd c)))) ?cells a ! j ! i =
        (if (j, i) \<in> set ?cells then Some (17 + int (sched (snd (j, i)))) else a ! j ! i)"
    using jk dims(1) row by (intro fold_write_nth_val) simp_all
  then show ?thesis
    by (simp only: bad_fs_mode_eq [OF T] mem) simp
qed

section \<open>Strided reads\<close>

lemma strided_index_perm:
  assumes N: "0 < N" and co: "coprime stride N" and nowrap: "(N - 1) * stride < 2 ^ 64"
  shows "mset (map (\<lambda>j. ulong (j * stride) mod N) [0..<N]) = mset [0..<N]"
proof -
  have "ulong (j * stride) = j * stride" if "j < N" for j
  proof -
    have "j \<le> N - 1" using that by simp
    then have "j * stride \<le> (N - 1) * stride" by (rule mult_le_mono1)
    then have "j * stride < 2 ^ 64" using nowrap by linarith
    then show ?thesis by (rule ulong_id)
  qed
  then have "map (\<lambda>j. ulong (j * stride) mod N) [0..<N] = map (\<lambda>j. j * stride mod N) [0..<N]"
    by (intro map_cong [OF refl]) simp
  then show ?thesis by (simp only: stride_perm [OF co N])
qed

lemma strided_reads_once:
  assumes N: "0 < N" and T: "0 < T" and NT: "N + T \<le> 2 ^ 64"
    and co: "coprime stride N" and nowrap: "(N - 1) * stride < 2 ^ 64"
  shows "\<exists>reads. map (\<lambda>tid. strided_indices N T stride tid []) [0..<T] = map Some reads
                \<and> mset (concat reads) = mset [0..<N]"
proof -
  let ?idx = "\<lambda>j. ulong (j * stride) mod N"
  let ?reads = "map (\<lambda>tid. map ?idx (filter (\<lambda>j. j mod T = tid) [0..<N])) [0..<T]"
  have "map (\<lambda>tid. strided_indices N T stride tid []) [0..<T] = map Some ?reads"
    by (simp add: strided_indices_thread [OF _ NT])
  moreover have "concat ?reads = map ?idx (concat (map (\<lambda>t. filter (\<lambda>j. j mod T = t) [0..<N]) [0..<T]))"
    by (simp add: map_concat comp_def)
  then have "mset (concat ?reads) = mset (map ?idx [0..<N])"
    using mset_residues_upt [OF T, of N] by (simp only: mset_map)
  then have "mset (concat ?reads) = mset [0..<N]"
    by (simp only: strided_index_perm [OF N co nowrap])
  ultimately show ?thesis by blast
qed

section \<open>Claim C4: every element is processed exactly once\<close>

text \<open>
  C4. For every size \<open>N \<ge> 1\<close> that fits in memory and every thread count \<open>T \<ge> 1\<close>: the
  partitioned workers (good and false-sharing modes of the sums and the comparison)
  visit the indices \<open>0, \<dots>, N - 1\<close>, each exactly once; the permuted workers read each
  element exactly once for every permutation of \<open>[0, N)\<close>; the strided workers all
  return and together read each element exactly once when the stride raises no warning
  (it is coprime with \<open>N\<close>) and \<open>(N - 1) * stride < 2 ^ 64\<close>; the good mode and the bad-ma
  mode of the matrix initialisation write each of the \<open>N * N\<close> cells exactly once and
  leave 17 in every cell. Nothing is said here about the bad-fs mode of the matrix
  initialisation.
\<close>

theorem every_element_once:
  assumes N: "1 \<le> N" "N * 8 < 2 ^ 64" and T: "1 \<le> T" "T < 2 ^ 31"
  shows "concat (map (thread_range N T) [0..<T]) = [0..<N]
       \<and> (mset p = mset [0..<N] \<longrightarrow>
            mset (map (\<lambda>i. p ! i) (concat (map (thread_range N T) [0..<T]))) = mset [0..<N])
       \<and> (\<not> stride_warning stride N \<and> (N - 1) * stride < 2 ^ 64 \<longrightarrow>
            (\<exists>reads. map (\<lambda>tid. strided_indices N T stride tid []) [0..<T] = map Some reads
                    \<and> mset (concat reads) = mset [0..<N]))
       \<and> distinct (good_mode_writes N) \<and> set (good_mode_writes N) = {0..<N} \<times> {0..<N}
       \<and> distinct (bad_ma_mode_writes N) \<and> set (bad_ma_mode_writes N) = {0..<N} \<times> {0..<N}
       \<and> (length a = N \<and> (\<forall>row\<in>set a. length row = N) \<longrightarrow>
            good_mode a N T = replicate N (replicate N (Some 17))
          \<and> bad_ma_mode a N T = replicate N (replicate N (Some 17)))"
proof -
  have T0: "0 < T" and N0: "0 < N" and N64: "N < 2 ^ 64" and NT: "N + T \<le> 2 ^ 64"
    using N T by simp_all
  have part: "concat (map (thread_range N T) [0..<T]) = [0..<N]"
    by (rule concat_ranges [OF T0 N64])
  have perm: "mset (map (\<lambda>i. p ! i) (concat (map (thread_range N T) [0..<T]))) = mset [0..<N]"
    if "mset p = mset [0..<N]"
  proof -
    have "length p = N" using arg_cong [OF that, of size] by simp
    then show ?thesis by (simp only: part map_nth_upt that)
  qed
  have stride: "\<exists>reads. map (\<lambda>tid. strided_indices N T stride tid []) [0..<T] = map Some reads
                    \<and> mset (concat reads) = mset [0..<N]"
    if "\<not> stride_warning stride N" "(N - 1) * stride < 2 ^ 64"
    using that by (intro strided_reads_once [OF N0 T0 NT]) (simp_all add: stride_warning_iff)
  have cells: "good_mode a N T = replicate N (replicate N (Some 17))
          \<and> bad_ma_mode a N T = replicate N (replicate N (Some 17))"
    if "length a = N" "\<forall>row\<in>set a. length row = N"
    using that by (simp only: good_mode_all bad_ma_mode_all)
  show ?thesis
    using part perm stride cells good_mode_writes_once [of N] bad_ma_mode_writes_once [of N]
    by blast
qed

theorem every_element_once_witness:
  "concat (map (thread_range 4 3) [0..<3]) = [0..<4]
   \<and> mset (map (\<lambda>i. [2, 0, 3, 1] ! i) (concat (map (thread_range 4 3) [0..<3]))) = mset [0..<4]
   \<and> (\<exists>reads. map (\<lambda>tid. strided_indices 4 3 7 tid []) [0..<3] = map Some reads
             \<and> mset (concat reads) = mset [0..<4])
   \<and> good_mode (replicate 4 (replicate 4 None)) 4 3 = replicate 4 (replicate 4 (Some 17))
   \<and> bad_ma_mode (replicate 4 (replicate 4 None)) 4 3 = replicate 4 (replicate 4 (Some 17))"
proof -
  have h: "(1::nat) \<le> 4" "(4::nat) * 8 < 2 ^ 64" "(1::nat) \<le> 3" "(3::nat) < 2 ^ 31"
    by simp_all
  have "[0..<4] = [0, 1, 2, 3::nat]" by (simp add: upt_rec)
  then have p: "mset [2, 0, 3, 1] = mset [0..<4::nat]" by simp
  have w: "\<not> stride_warning 7 4 \<and> (4 - 1) * 7 < (2::nat) ^ 64"
    by (simp add: stride_warning_def gcd_loop.simps)
  have a: "length (replicate 4 (replicate 4 (None :: int option))) = 4
       \<and> (\<forall>row\<in>set (replicate 4 (replicate 4 (None :: int option))). length row = 4)"
    by simp
  from every_element_once [OF h, of "[2, 0, 3, 1]" 7 "replicate 4 (replicate 4 None)"] p w a
  show ?thesis by blast
qed

text \<open>
  With the program's stride 7 and seven elements the warning is printed and the run goes
  on: one thread computes the index 0 seven times, so element 0 is read seven times and
  no other element is read, and the sum printed is 7.
\<close>

theorem strided_reads_counterexample:
  "stride_warning 7 7
   \<and> strided_indices 7 1 7 0 [] = Some [0, 0, 0, 0, 0, 0, 0]
   \<and> mset [0, 0, 0, 0, 0, 0, 0] \<noteq> mset [0..<7::nat]
   \<and> main_28 (Some [0, 0, 0, 0, 0, 0, 0]) (Some [\<lparr>sum_f = 0, padding = []\<rparr>]) None 4 ''bad-ma'' 7 1
       = Some \<lparr>exit_status = 0, allocations = [56, 64], printed = [7]\<rparr>"
proof -
  have w: "stride_warning 7 7" by (simp add: stride_warning_def gcd_loop.simps)
  have u: "[0..<7] = [0, 1, 2, 3, 4, 5, 6::nat]" by (simp add: upt_rec)
  have s: "strided_indices 7 1 7 0 [] = Some [0, 0, 0, 0, 0, 0, 0]"
    by (simp add: strided_indices_thread u ulong_def)
  have m: "mset [0, 0, 0, 0, 0, 0, 0] \<noteq> mset [0..<7::nat]"
  proof
    assume "mset [0, 0, 0, 0, 0, 0, 0] = mset [0..<7::nat]"
    then have "set [0, 0, 0, 0, 0, 0, 0] = set [0..<7::nat]" by (rule mset_eq_setD)
    then have "(1::nat) \<in> set [0, 0, 0, 0, 0, 0, 0]" by simp
    then show False by simp
  qed
  have r: "main_28 (Some [0, 0, 0, 0, 0, 0, 0]) (Some [\<lparr>sum_f = 0, padding = []\<rparr>]) None 4 ''bad-ma'' 7 1
       = Some \<lparr>exit_status = 0, allocations = [56, 64], printed = [7]\<rparr>"
    by (simp add: main_28_def sum_bad_ma_28_eq load_array_eq u ulong_def)
  show ?thesis using w s m r by simp
qed

text \<open>
  The bad-fs mode of the matrix initialisation is a different matter. In column \<open>i\<close> it
  writes the rows \<open>j\<close> with \<open>j mod threads = tid\<close> for the one thread that runs
  iteration \<open>i\<close>, so with two or more threads every column keeps a cell that is never
  written, whatever the schedule; for a 2 by 2 matrix and two threads only the diagonal
  is written.
\<close>

lemma bad_fs_mode_skips_cells:
  assumes T: "2 \<le> T" and N: "2 \<le> N" and dims: "length a = N" "\<forall>row\<in>set a. length row = N"
    and sched: "\<forall>i<N. sched i < T" and i: "i < N"
  shows "\<exists>a' j. bad_fs_mode sched a N T = Some a' \<and> j < N \<and> a' ! j ! i = a ! j ! i"
proof -
  define j :: nat where "j = (if sched i = 0 then 1 else 0)"
  have j: "j < N" and ne: "j mod T \<noteq> sched i"
    using T N by (auto simp: j_def)
  have T0: "0 < T" using T by simp
  obtain a' where "bad_fs_mode sched a N T = Some a'"
    "a' ! j ! i = (if j mod T = sched i then Some (17 + int (sched i)) else a ! j ! i)"
    using bad_fs_mode_cell [OF T0 dims sched j i] by blast
  then show ?thesis using j ne by auto
qed

lemma bad_fs_mode_two_by_two:
  "bad_fs_mode (static_sched 2 2) [[None, None], [None, None]] 2 2 =
     Some [[Some 17, None], [None, Some 18]]"
  by code_simp

section \<open>Reductions and the bad-fs matrix initialisation\<close>

lemma private_copies:
  fixes v :: "nat \<Rightarrow> 'a::comm_monoid_add"
  shows "fold (\<lambda>i p. p(sched i := p (sched i) + v i)) xs p0 t =
         p0 t + sum_list (map v (filter (\<lambda>i. sched i = t) xs))"
  by (induction xs arbitrary: p0) (simp_all add: add.assoc)

lemma omp_for_reduction_eq:
  assumes "\<forall>i<n. sched i < team"
  shows "omp_for_reduction team sched array n index_of =
         sum_list (map (\<lambda>i. array ! index_of i) [0..<n])"
proof -
  let ?v = "\<lambda>i. array ! index_of i"
  let ?private = "fold (\<lambda>i p. p(sched i := p (sched i) + ?v i)) [0..<n] (\<lambda>t. 0)"
  have "fold (\<lambda>t sum. sum + ?private t) [0..<team] 0 = 0 + sum_list (map ?private [0..<team])"
    by (rule fold_add_sum_list)
  also have "map ?private [0..<team] =
             map (\<lambda>t. sum_list (map ?v (filter (\<lambda>i. sched i = t) [0..<n]))) [0..<team]"
    by (simp add: private_copies)
  also have "0 + sum_list (map (\<lambda>t. sum_list (map ?v (filter (\<lambda>i. sched i = t) [0..<n]))) [0..<team]) =
             sum_list (map ?v (concat (map (\<lambda>t. filter (\<lambda>i. sched i = t) [0..<n]) [0..<team])))"
    by (simp only: sum_list_nested add_0_left)
  also have "\<dots> = sum_list (map ?v (filter (\<lambda>i. sched i < team) [0..<n]))"
    by (rule sum_list_mset_cong) (rule mset_residue_classes)
  also have "filter (\<lambda>i. sched i < team) [0..<n] = [0..<n]"
    using assms by (simp add: filter_id_conv)
  finally show ?thesis unfolding omp_for_reduction_def Let_def .
qed

section \<open>Claim C8: the result does not depend on the thread count\<close>

text \<open>
  C8. For a fixed input and a fixed mode and any two thread counts \<open>T, T' \<ge> 1\<close> (so for
  any two of 1, 2, 4, 8): the sums of \<^verbatim>\<open>sum_good\<close>, \<^verbatim>\<open>sum_bad_fs\<close>, the permuted and the
  strided \<^verbatim>\<open>sum_bad_ma\<close> (which returns), the counts of the three comparisons, and the
  sum of the \<^verbatim>\<open>reduction(+:sum)\<close> loop are the same for \<open>T\<close> and \<open>T'\<close>; the matrices
  written by \<^verbatim>\<open>good_mode\<close> and \<^verbatim>\<open>bad_ma_mode\<close> are the same. In \<^verbatim>\<open>bad_fs_mode\<close> a cell of
  column \<open>i\<close> is either as it was or holds 17 plus the number of the thread that ran
  iteration \<open>i\<close>.
\<close>

theorem thread_count_invariance:
  assumes N: "1 \<le> N" "N * 8 < 2 ^ 64"
    and T: "1 \<le> T" "T < 2 ^ 31" "1 \<le> T'" "T' < 2 ^ 31"
    and slots: "length padded = T" "length padded' = T'" "length packed = T" "length packed' = T'"
      "length dpadded = T" "length dpadded' = T'"
  shows "sum_good (Some padded) array N T = sum_good (Some padded') array N T'
       \<and> sum_bad_fs (Some packed) array N T = sum_bad_fs (Some packed') array N T'
       \<and> sum_bad_ma_29 (Some padded) array N T p = sum_bad_ma_29 (Some padded') array N T' p
       \<and> sum_bad_ma_28 (Some padded) array N T stride = sum_bad_ma_28 (Some padded') array N T' stride
       \<and> sum_bad_ma_28 (Some padded) array N T stride \<noteq> None
       \<and> compare_good (Some dpadded) A B N T = compare_good (Some dpadded') A B N T'
       \<and> compare_bad_fs (Some packed) A B N T = compare_bad_fs (Some packed') A B N T'
       \<and> compare_bad_ma (Some dpadded) A B N T p = compare_bad_ma (Some dpadded') A B N T' p
       \<and> ((\<forall>i<N. sched i < T) \<and> (\<forall>i<N. sched' i < T') \<longrightarrow>
            omp_for_reduction T sched array N good_index_14 =
            omp_for_reduction T' sched' array N good_index_14)
       \<and> good_mode a n T = good_mode a n T'
       \<and> bad_ma_mode a n T = bad_ma_mode a n T'
       \<and> (length a = n \<and> (\<forall>row\<in>set a. length row = n) \<and> (\<forall>i<n. sched i < T) \<and> j < n \<and> i < n \<longrightarrow>
            (\<exists>a'. bad_fs_mode sched a n T = Some a' \<and>
                  (a' ! j ! i = a ! j ! i \<or> a' ! j ! i = Some (17 + int (sched i)))))"
proof -
  have T0: "0 < T" "0 < T'" and N64: "N < 2 ^ 64" and NT: "N + T \<le> 2 ^ 64" "N + T' \<le> 2 ^ 64"
    using N T by simp_all
  have 1: "sum_good (Some padded) array N T = sum_good (Some padded') array N T'"
    by (simp only: sum_good_total [OF slots(1) T0(1) N64] sum_good_total [OF slots(2) T0(2) N64])
  have 2: "sum_bad_fs (Some packed) array N T = sum_bad_fs (Some packed') array N T'"
    by (simp only: sum_bad_fs_total [OF slots(3) T0(1) N64] sum_bad_fs_total [OF slots(4) T0(2) N64])
  have 3: "sum_bad_ma_29 (Some padded) array N T p = sum_bad_ma_29 (Some padded') array N T' p"
    by (simp only: sum_bad_ma_29_total [OF slots(1) T0(1) N64]
        sum_bad_ma_29_total [OF slots(2) T0(2) N64])
  have 4: "sum_bad_ma_28 (Some padded) array N T stride = sum_bad_ma_28 (Some padded') array N T' stride"
    by (simp only: sum_bad_ma_28_eq [OF slots(1) T0(1) NT(1)] sum_bad_ma_28_eq [OF slots(2) T0(2) NT(2)])
  have 5: "sum_bad_ma_28 (Some padded) array N T stride \<noteq> None"
    by (simp only: sum_bad_ma_28_eq [OF slots(1) T0(1) NT(1)]) simp
  have 6: "compare_good (Some dpadded) A B N T = compare_good (Some dpadded') A B N T'"
    by (simp only: compare_good_total [OF slots(5) T0(1) N64]
        compare_good_total [OF slots(6) T0(2) N64])
  have 7: "compare_bad_fs (Some packed) A B N T = compare_bad_fs (Some packed') A B N T'"
    by (simp only: compare_bad_fs_total [OF slots(3) T0(1) N64]
        compare_bad_fs_total [OF slots(4) T0(2) N64])
  have 8: "compare_bad_ma (Some dpadded) A B N T p = compare_bad_ma (Some dpadded') A B N T' p"
    by (simp only: compare_bad_ma_total [OF slots(5) T0(1) N64]
        compare_bad_ma_total [OF slots(6) T0(2) N64])
  have 9: "omp_for_reduction T sched array N good_index_14 =
           omp_for_reduction T' sched' array N good_index_14"
    if "(\<forall>i<N. sched i < T) \<and> (\<forall>i<N. sched' i < T')"
    using that by (simp add: omp_for_reduction_eq)
  have 10: "good_mode a n T = good_mode a n T'" "bad_ma_mode a n T = bad_ma_mode a n T'"
    by (simp_all add: good_mode_def bad_ma_mode_def)
  have 11: "\<exists>a'. bad_fs_mode sched a n T = Some a' \<and>
                  (a' ! j ! i = a ! j ! i \<or> a' ! j ! i = Some (17 + int (sched i)))"
    if h: "length a = n \<and> (\<forall>row\<in>set a. length row = n) \<and> (\<forall>i<n. sched i < T) \<and> j < n \<and> i < n"
  proof -
    from h obtain a' where "bad_fs_mode sched a n T = Some a'"
      "a' ! j ! i = (if j mod T = sched i then Some (17 + int (sched i)) else a ! j ! i)"
      using bad_fs_mode_cell [OF T0(1), of a n sched j i] by blast
    then show ?thesis by (cases "j mod T = sched i") auto
  qed
  show ?thesis using 1 2 3 4 5 6 7 8 9 10 11 by blast
qed

theorem thread_count_invariance_witness:
  "sum_good (Some (replicate 2 \<lparr>sum_f = 9, padding = []\<rparr>)) [1, 2, 3, 4] 4 2
     = sum_good (Some (replicate 8 \<lparr>sum_f = 9, padding = []\<rparr>)) [1, 2, 3, 4] 4 8
   \<and> sum_bad_fs (Some (replicate 2 9)) [1, 2, 3, 4] 4 2 = sum_bad_fs (Some (replicate 8 9)) [1, 2, 3, 4] 4 8
   \<and> sum_bad_ma_28 (Some (replicate 2 \<lparr>sum_f = 9, padding = []\<rparr>)) [1, 2, 3, 4] 4 2 7
     = sum_bad_ma_28 (Some (replicate 8 \<lparr>sum_f = 9, padding = []\<rparr>)) [1, 2, 3, 4] 4 8 7
   \<and> sum_bad_ma_28 (Some (replicate 2 \<lparr>sum_f = 9, padding = []\<rparr>)) [1, 2, 3, 4] 4 2 7 \<noteq> None
   \<and> compare_good (Some (replicate 2 \<lparr>diff_count = 9, padding_d = []\<rparr>)) [1, 2, 3, 4] [1, 0, 3, 0] 4 2
     = compare_good (Some (replicate 8 \<lparr>diff_count = 9, padding_d = []\<rparr>)) [1, 2, 3, 4] [1, 0, 3, 0] 4 8
   \<and> omp_for_reduction 2 (\<lambda>i. i mod 2) [1, 2, 3, 4] 4 good_index_14
     = omp_for_reduction 8 (\<lambda>i. i mod 8) [1, 2, 3, 4] 4 good_index_14
   \<and> good_mode (replicate 4 (replicate 4 None)) 4 2 = good_mode (replicate 4 (replicate 4 None)) 4 8
   \<and> (\<exists>a'. bad_fs_mode (\<lambda>i. i mod 2) (replicate 4 (replicate 4 None)) 4 2 = Some a' \<and>
           (a' ! 3 ! 1 = replicate 4 (replicate 4 None) ! 3 ! 1 \<or> a' ! 3 ! 1 = Some (17 + int (1 mod 2))))"
proof -
  have h: "(1::nat) \<le> 4" "(4::nat) * 8 < 2 ^ 64" "(1::nat) \<le> 2" "(2::nat) < 2 ^ 31"
    "(1::nat) \<le> 8" "(8::nat) < 2 ^ 31"
    "length (replicate 2 \<lparr>sum_f = 9, padding = []\<rparr>) = 2"
    "length (replicate 8 \<lparr>sum_f = 9, padding = []\<rparr>) = 8"
    "length (replicate 2 (9::u64)) = 2" "length (replicate 8 (9::u64)) = 8"
    "length (replicate 2 \<lparr>diff_count = 9, padding_d = []\<rparr>) = 2"
    "length (replicate 8 \<lparr>diff_count = 9, padding_d = []\<rparr>) = 8"
    by simp_all
  have s: "(\<forall>i<4. i mod 2 < (2::nat)) \<and> (\<forall>i<4. i mod 8 < (8::nat))" by simp
  have a: "length (replicate 4 (replicate 4 (None :: int option))) = 4
     \<and> (\<forall>row\<in>set (replicate 4 (replicate 4 (None :: int option))). length row = 4)
     \<and> (\<forall>i<4. i mod 2 < (2::nat)) \<and> (3::nat) < 4 \<and> (1::nat) < 4"
    by simp
  from thread_count_invariance [OF h, of "[1, 2, 3, 4]" "[2, 0, 3, 1]" 7 "[1, 2, 3, 4]" "[1, 0, 3, 0]"
      "\<lambda>i. i mod 2" "\<lambda>i. i mod 8" "replicate 4 (replicate 4 None)" 4 3 1] s a
  show ?thesis by blast
qed

lemma sizes_23: "size_t_of_int 18 = 18"
  by (simp add: size_t_of_int_def)

lemma main_23_bad_fs:
  assumes argc: "4 \<le> argc" and N: "17 < N" and T: "0 < T" and sched: "\<forall>i<nat N. sched i < nat T"
  shows "main_23 True True sched argc ''bad-fs'' N T =
         Some (Inr \<lparr>exit_status = 0,
                    allocations = [ulong (8 * size_t_of_int N),
                                   ulong (ulong (4 * size_t_of_int N) * size_t_of_int N)],
                    printed = [if 17 mod nat T = sched 17 then Some (17 + int (sched 17)) else None]\<rparr>)"
proof -
  let ?a = "replicate (nat N) (replicate (nat N) (None :: int option))"
  have "\<exists>a'. bad_fs_mode sched ?a (nat N) (nat T) = Some a' \<and>
           a' ! 17 ! 17 = (if 17 mod nat T = sched 17 then Some (17 + int (sched 17)) else ?a ! 17 ! 17)"
    using N T sched by (intro bad_fs_mode_cell) simp_all
  then obtain a' where a': "bad_fs_mode sched ?a (nat N) (nat T) = Some a'"
    "a' ! 17 ! 17 = (if 17 mod nat T = sched 17 then Some (17 + int (sched 17)) else ?a ! 17 ! 17)"
    by blast
  have "?a ! 17 ! 17 = None" using N by simp
  then show ?thesis
    using argc N T a' by (simp add: main_23_def Let_def)
qed

text \<open>
  The bad-fs mode of the matrix initialisation stores \<^verbatim>\<open>17 + tid\<close>. For \<open>N = 18\<close> the
  program prints \<^verbatim>\<open>a[17][17] = 17\<close> with one thread and \<^verbatim>\<open>a[17][17] = 18\<close> with two
  (column 17 is run by thread 1 under the static schedule, and \<open>17 mod 2 = 1\<close>).
\<close>

theorem matrix_bad_fs_thread_count_counterexample:
  "main_23 True True (static_sched 18 1) 4 ''bad-fs'' 18 1 =
     Some (Inr \<lparr>exit_status = 0, allocations = [144, 1296], printed = [Some 17]\<rparr>)
   \<and> main_23 True True (static_sched 18 2) 4 ''bad-fs'' 18 2 =
     Some (Inr \<lparr>exit_status = 0, allocations = [144, 1296], printed = [Some 18]\<rparr>)"
proof -
  have s1: "\<forall>i<nat 18. static_sched 18 1 i < nat 1"
    by (simp add: static_sched_def)
  have s2: "\<forall>i<nat 18. static_sched 18 2 i < nat 2"
    by (simp add: static_sched_def less_mult_imp_div_less)
  have v: "static_sched 18 1 17 = 0" "static_sched 18 (Suc 0) 17 = 0" "static_sched 18 2 17 = 1"
    by (simp_all add: static_sched_def)
  have "main_23 True True (static_sched 18 1) 4 ''bad-fs'' 18 1 =
     Some (Inr \<lparr>exit_status = 0, allocations = [144, 1296], printed = [Some 17]\<rparr>)"
    using main_23_bad_fs [OF _ _ _ s1, of 4] by (simp add: v sizes_23 ulong_def)
  moreover have "main_23 True True (static_sched 18 2) 4 ''bad-fs'' 18 2 =
     Some (Inr \<lparr>exit_status = 0, allocations = [144, 1296], printed = [Some 18]\<rparr>)"
    using main_23_bad_fs [OF _ _ _ s2, of 4] by (simp add: v sizes_23 ulong_def)
  ultimately show ?thesis by simp
qed

section \<open>The entry points on invalid arguments and the bad-ma branch of the simulation\<close>

lemma bad_ma_index_14_linear: "bad_ma_index_14 = good_index_14"
  by (rule ext) (simp add: bad_ma_index_14_def good_index_14_def)

text \<open>
  Neither array\_sum\_false\_sharing\_sim nor matrix\_init\_access\_modes tests the thread
  count. With 0 or a negative count the reductions of the first program run in a team of
  one thread and the sum is printed, and the good and the bad-ma mode of the second
  write the matrix; both exit with status 0. The bad-fs modes leave their blocks: the
  first writes \<^verbatim>\<open>partial_sums[0]\<close> in a block of 0 bytes, the second steps its row index
  below 0.
\<close>

lemma entry_points_nonpositive_threads:
  "main_14 (Some [0, 0, 0]) sums_mem (\<lambda>i. 0) 4 ''good'' 3 0 =
     Inr \<lparr>exit_status = 0, allocations = [24], printed = [6]\<rparr>
   \<and> main_14 (Some [0, 0, 0]) sums_mem (\<lambda>i. 0) 4 ''bad-ma'' 3 (- 2) =
     Inr \<lparr>exit_status = 0, allocations = [24], printed = [6]\<rparr>
   \<and> main_14 (Some [0, 0, 0]) (Some []) (\<lambda>i. 0) 4 ''bad-fs'' 3 0 = Inl Out_of_bounds
   \<and> main_23 True True sched 4 ''good'' 2 0 =
     Some (Inr \<lparr>exit_status = 0, allocations = [16, 16], printed = []\<rparr>)
   \<and> main_23 True True sched 4 ''bad-ma'' 2 (- 1) =
     Some (Inr \<lparr>exit_status = 0, allocations = [16, 16], printed = []\<rparr>)
   \<and> main_23 True True (\<lambda>i. 0) 4 ''bad-fs'' 2 (- 1) = Some (Inl Out_of_bounds)"
proof -
  have u: "[0..<3] = [0, 1, 2::nat]" "[0..<2] = [0, 1::nat]" by (simp_all add: upt_rec)
  have s: "\<forall>i<3. (\<lambda>i. 0::nat) i < Suc 0" by simp
  have r: "omp_for_reduction (Suc 0) (\<lambda>i. 0) [1, 2, 3] 3 index_of =
           sum_list (map (\<lambda>i. [1, 2, 3] ! index_of i) [0..<3])" for index_of
    by (rule omp_for_reduction_eq [OF s])
  have 1: "main_14 (Some [0, 0, 0]) sums_mem (\<lambda>i. 0) 4 ''good'' 3 0 =
     Inr \<lparr>exit_status = 0, allocations = [24], printed = [6]\<rparr>"
    by (simp add: main_14_def ulong_def Let_def r load_array_eq good_index_14_def u)
  have 2: "main_14 (Some [0, 0, 0]) sums_mem (\<lambda>i. 0) 4 ''bad-ma'' 3 (- 2) =
     Inr \<lparr>exit_status = 0, allocations = [24], printed = [6]\<rparr>"
    by (simp add: main_14_def ulong_def Let_def r load_array_eq bad_ma_index_14_def u)
  have 3: "main_14 (Some [0, 0, 0]) (Some []) (\<lambda>i. 0) 4 ''bad-fs'' 3 0 = Inl Out_of_bounds"
    by (simp add: main_14_def bad_fs_14_def Let_def u)
  have 4: "main_23 True True sched 4 ''good'' 2 0 =
     Some (Inr \<lparr>exit_status = 0, allocations = [16, 16], printed = []\<rparr>)"
    "main_23 True True sched 4 ''bad-ma'' 2 (- 1) =
     Some (Inr \<lparr>exit_status = 0, allocations = [16, 16], printed = []\<rparr>)"
    by (simp_all add: main_23_def ulong_def size_t_of_int_def Let_def)
  have 5: "main_23 True True (\<lambda>i. 0) 4 ''bad-fs'' 2 (- 1) = Some (Inl Out_of_bounds)"
    by (simp add: main_23_def Let_def u)
  show ?thesis using 1 2 3 4 5 by simp
qed


section \<open>Claim C9: the traversal order of the bad-ma mode\<close>

text \<open>
  C9. In array\_sum\_false\_sharing\_sim the bad-ma branch declares \<^verbatim>\<open>int stride = 64\<close> and
  never uses it: iteration \<open>i\<close> reads \<^verbatim>\<open>array[i]\<close>, so for every size the indices are read
  in the linear order of the good branch and a run in the mode \<^verbatim>\<open>bad-ma\<close> is a run in
  the mode \<^verbatim>\<open>good\<close>. For eight elements the indices are \<open>0, 1, \<dots>, 7\<close>, where the strided
  \<^verbatim>\<open>sum_bad_ma\<close> of array\_sum\_memory\_access reads \<open>0, 7, 6, 5, 4, 3, 2, 1\<close>.
\<close>

theorem sim_bad_ma_is_linear:
  "map bad_ma_index_14 [0..<n] = [0..<n]
   \<and> map bad_ma_index_14 [0..<n] = map good_index_14 [0..<n]
   \<and> main_14 array_mem sums_mem sched argc ''bad-ma'' n threads =
       main_14 array_mem sums_mem sched argc ''good'' n threads
   \<and> main_14 (Some [0, 0, 0, 0, 0, 0, 0, 0]) None (static_sched 8 2) 4 ''bad-ma'' 8 2 =
       Inr \<lparr>exit_status = 0, allocations = [64], printed = [36]\<rparr>
   \<and> map bad_ma_index_14 [0..<8] = [0, 1, 2, 3, 4, 5, 6, 7]
   \<and> strided_indices 8 1 7 0 [] = Some [0, 7, 6, 5, 4, 3, 2, 1]"
proof -
  have u: "[0..<8] = [0, 1, 2, 3, 4, 5, 6, 7::nat]" by (simp add: upt_rec)
  have 1: "map bad_ma_index_14 [0..<n] = [0..<n]"
    by (simp add: bad_ma_index_14_def map_idI)
  have 2: "map bad_ma_index_14 [0..<n] = map good_index_14 [0..<n]"
    by (simp only: bad_ma_index_14_linear)
  have 3: "main_14 array_mem sums_mem sched argc ''bad-ma'' n threads =
       main_14 array_mem sums_mem sched argc ''good'' n threads"
    by (simp add: main_14_def bad_ma_index_14_linear Let_def split: option.split)
  have s: "\<forall>i<8. static_sched 8 2 i < 2"
    by (simp add: static_sched_def less_mult_imp_div_less)
  have "omp_for_reduction 2 (static_sched 8 2) (load_array [0, 0, 0, 0, 0, 0, 0, 0] 8) 8 bad_ma_index_14
        = (36::u64)"
    by (simp add: omp_for_reduction_eq [OF s] load_array_eq bad_ma_index_14_def u)
  then have 4: "main_14 (Some [0, 0, 0, 0, 0, 0, 0, 0]) None (static_sched 8 2) 4 ''bad-ma'' 8 2 =
       Inr \<lparr>exit_status = 0, allocations = [64], printed = [36]\<rparr>"
    by (simp add: main_14_def ulong_def Let_def)
  have 5: "map bad_ma_index_14 [0..<8] = [0, 1, 2, 3, 4, 5, 6, 7]"
    by (simp add: bad_ma_index_14_def u)
  have 6: "strided_indices 8 1 7 0 [] = Some [0, 7, 6, 5, 4, 3, 2, 1]"
    by (simp add: strided_indices_thread u ulong_def)
  show ?thesis using 1 2 3 4 5 6 by blast
qed

section \<open>Claim C7: rejection of invalid arguments\<close>

text \<open>
  C7. array\_sum\_false\_sharing\_sim called with the mode \<^verbatim>\<open>good\<close>, size 0 and 4 threads
  requests 0 bytes from \<^verbatim>\<open>malloc\<close> and, when that returns a block, prints the sum 0 and
  exits with status 0 (with status 1 when it returns a null pointer, after the request in
  both cases). matrix\_init\_access\_modes called with \<^verbatim>\<open>good\<close>, \<open>N = 0\<close> and 4 threads makes
  its two requests and exits with status 0. array\_sum\_performance\_variation called with
  an unknown mode and size 3 exits with status 1 only after it has requested the array.
  array\_sum\_memory\_access exits with status 1 and no request for size 0, for 0 threads
  and for an unknown mode.
\<close>

theorem size_and_threads_not_validated:
  "main_14 (Some []) sums_mem sched 4 ''good'' 0 4 =
     Inr \<lparr>exit_status = 0, allocations = [0], printed = [0]\<rparr>
   \<and> main_14 None sums_mem sched 4 ''good'' 0 4 =
     Inr \<lparr>exit_status = 1, allocations = [0], printed = []\<rparr>
   \<and> main_23 True True sched 4 ''good'' 0 4 =
     Some (Inr \<lparr>exit_status = 0, allocations = [0, 0], printed = []\<rparr>)
   \<and> main_10 (Some [0, 0, 0]) indices_mem rnd 3 ''fast'' 3 =
     Some (Inr \<lparr>exit_status = 1, allocations = [24], printed = []\<rparr>)
   \<and> main_28 array_mem padded_mem packed_mem 4 ''good'' 0 4 =
     Some \<lparr>exit_status = 1, allocations = [], printed = []\<rparr>
   \<and> main_28 array_mem padded_mem packed_mem 4 ''good'' 10 0 =
     Some \<lparr>exit_status = 1, allocations = [], printed = []\<rparr>
   \<and> main_28 array_mem padded_mem packed_mem 4 ''fast'' 10 4 =
     Some \<lparr>exit_status = 1, allocations = [], printed = []\<rparr>"
proof -
  have r: "omp_for_reduction 4 sched (load_array [] 0) 0 good_index_14 = (0::u64)"
    by (simp add: omp_for_reduction_eq)
  have 1: "main_14 (Some []) sums_mem sched 4 ''good'' 0 4 =
     Inr \<lparr>exit_status = 0, allocations = [0], printed = [0]\<rparr>"
    by (simp add: main_14_def ulong_def r Let_def)
  have 2: "main_14 None sums_mem sched 4 ''good'' 0 4 =
     Inr \<lparr>exit_status = 1, allocations = [0], printed = []\<rparr>"
    by (simp add: main_14_def ulong_def)
  have 3: "main_23 True True sched 4 ''good'' 0 4 =
     Some (Inr \<lparr>exit_status = 0, allocations = [0, 0], printed = []\<rparr>)"
    by (simp add: main_23_def ulong_def size_t_of_int_def good_mode_def good_mode_writes_def Let_def)
  have 4: "main_10 (Some [0, 0, 0]) indices_mem rnd 3 ''fast'' 3 =
     Some (Inr \<lparr>exit_status = 1, allocations = [24], printed = []\<rparr>)"
    by (simp add: main_10_def ulong_def Let_def)
  have 5: "main_28 array_mem padded_mem packed_mem 4 ''good'' 0 4 =
     Some \<lparr>exit_status = 1, allocations = [], printed = []\<rparr>"
    "main_28 array_mem padded_mem packed_mem 4 ''good'' 10 0 =
     Some \<lparr>exit_status = 1, allocations = [], printed = []\<rparr>"
    "main_28 array_mem padded_mem packed_mem 4 ''fast'' 10 4 =
     Some \<lparr>exit_status = 1, allocations = [], printed = []\<rparr>"
    by (simp_all add: main_28_def)
  show ?thesis using 1 2 3 4 5 by blast
qed

end
